theory Spec2Isabelle
  imports Main
begin

section \<open>Python strings\<close>

text \<open>
  A Python \<open>str\<close> is a sequence of code points. The model uses \<^typ>\<open>string\<close>, one
  \<^typ>\<open>char\<close> per code point, which covers the code points below 256 (Latin-1); every
  character of the two source files, including the letter a-umlaut (U+00E4), lies there.
\<close>

definition auml :: char where
  "auml = CHR 0xE4"

definition newline :: char where
  "newline = CHR 0x0A"

text \<open>
  \<open>str.isspace\<close> on one character, which is also what \<open>str.strip()\<close> removes and what
  \<open>\s\<close> matches in a \<open>str\<close> pattern: below 256 these are the code points 9 to 13, 28 to 32,
  133 and 160.
\<close>

definition is_space :: "char \<Rightarrow> bool" where
  "is_space c =
     (let n = (of_char c :: nat)
      in (9 \<le> n \<and> n \<le> 13) \<or> (28 \<le> n \<and> n \<le> 32) \<or> n = 133 \<or> n = 160)"

text \<open>\<open>s.strip()\<close>\<close>

definition strip :: "string \<Rightarrow> string" where
  "strip s = rev (dropWhile is_space (rev (dropWhile is_space s)))"

text \<open>\<open>s.split(',')\<close>: the pieces between the commas, at least one piece.\<close>

fun split_acc :: "char \<Rightarrow> string \<Rightarrow> string \<Rightarrow> string list" where
  "split_acc sep acc [] = [rev acc]"
| "split_acc sep acc (x # xs) =
     (if x = sep then rev acc # split_acc sep [] xs else split_acc sep (x # acc) xs)"

definition split_comma :: "string \<Rightarrow> string list" where
  "split_comma s = split_acc (CHR '','') [] s"

text \<open>
  \<open>re.split(r'\s/\s', s)\<close>: the pattern has three characters, a whitespace character, a
  slash, a whitespace character. The matches are taken leftmost first and do not overlap;
  the result is the list of the pieces between them.
\<close>

definition slash_sep :: "char \<Rightarrow> char \<Rightarrow> char \<Rightarrow> bool" where
  "slash_sep a b c = (is_space a \<and> b = CHR ''/'' \<and> is_space c)"

fun re_split_acc :: "string \<Rightarrow> string \<Rightarrow> string list" where
  "re_split_acc acc (a # b # c # rest) =
     (if slash_sep a b c then rev acc # re_split_acc [] rest
      else re_split_acc (a # acc) (b # c # rest))"
| "re_split_acc acc s = [rev acc @ s]"

definition re_split_slash :: "string \<Rightarrow> string list" where
  "re_split_slash s = re_split_acc [] s"

section \<open>The pattern of read_column_with_sources\<close>

text \<open>
  \<open>re.search(r'(.+) \(([^()]+)\)(.*)', orig_value)\<close>. The dot matches every character but
  the newline; \<open>[^()]\<close> matches every character but the two parentheses.
\<close>

definition dot :: "char \<Rightarrow> bool" where
  "dot c = (c \<noteq> newline)"

definition not_paren :: "char \<Rightarrow> bool" where
  "not_paren c = (c \<noteq> CHR ''('' \<and> c \<noteq> CHR '')'')"

text \<open>
  The part of the pattern after the first group, \<open> \(([^()]+)\)(.*)\<close>, anchored at the
  head of the string. The greedy \<open>[^()]+\<close> takes the longest run of non-parentheses; a
  shorter run is followed by a non-parenthesis, so backtracking into it never finds the
  closing parenthesis. The greedy \<open>(.*)\<close> runs to the end of the line and the pattern
  ends there. The result is groups 2 and 3.
\<close>

definition match_tail :: "string \<Rightarrow> (string \<times> string) option" where
  "match_tail s =
     (case s of
        a # b # r \<Rightarrow>
          if a = CHR '' '' \<and> b = CHR ''(''
          then (case dropWhile not_paren r of
                  [] \<Rightarrow> None
                | c # t \<Rightarrow>
                    if takeWhile not_paren r \<noteq> [] \<and> c = CHR '')''
                    then Some (takeWhile not_paren r, takeWhile dot t)
                    else None)
          else None
      | _ \<Rightarrow> None)"

text \<open>
  The greedy \<open>(.+)\<close> at the head of the string: it first takes every character up to the
  end of the line, and gives them back one at a time, down to one character, until the
  rest of the pattern matches.
\<close>

fun match_dotplus :: "string \<Rightarrow> nat \<Rightarrow> (string \<times> string \<times> string) option" where
  "match_dotplus s 0 = None"
| "match_dotplus s (Suc n) =
     (case match_tail (drop (Suc n) s) of
        Some (g, t) \<Rightarrow> Some (take (Suc n) s, g, t)
      | None \<Rightarrow> match_dotplus s n)"

definition match_at :: "string \<Rightarrow> (string \<times> string \<times> string) option" where
  "match_at s = match_dotplus s (length (takeWhile dot s))"

text \<open>\<open>re.search\<close> tries the start positions from left to right.\<close>

fun re_search :: "string \<Rightarrow> (string \<times> string \<times> string) option" where
  "re_search [] = None"
| "re_search (x # r) =
     (case match_at (x # r) of
        Some m \<Rightarrow> Some m
      | None \<Rightarrow> re_search r)"

section \<open>Values, literals and graphs\<close>

text \<open>
  The Python values that reach a truth test or \<open>Literal(...)\<close>: \<open>None\<close>, a \<open>str\<close>, an
  \<open>int\<close> and a \<open>datetime.date\<close> (year, month, day).
\<close>

datatype pyval = PyNone | PyStr string | PyInt int | PyDate int int int

fun truthy :: "pyval \<Rightarrow> bool" where
  "truthy PyNone = False"
| "truthy (PyStr s) = (s \<noteq> [])"
| "truthy (PyInt n) = (n \<noteq> 0)"
| "truthy (PyDate y m d) = True"

type_synonym uri = string

text \<open>An RDF term in object position: a \<open>URIRef\<close>, or a literal with its datatype and language.\<close>

datatype node = URIRef uri | Lit pyval "uri option" "string option"

type_synonym triple = "uri \<times> uri \<times> node"

text \<open>An rdflib \<open>Graph\<close> is a set of triples: \<open>add\<close> inserts, \<open>+=\<close> adds every triple of the other graph.\<close>

type_synonym graph = "triple set"

definition add :: "triple \<Rightarrow> graph \<Rightarrow> graph" where
  "add t g = insert t g"

definition iadd :: "graph \<Rightarrow> graph \<Rightarrow> graph" where
  "iadd g other = g \<union> other"

definition XSD_date :: uri where
  "XSD_date = ''http://www.w3.org/2001/XMLSchema#date''"

definition XSD_integer :: uri where
  "XSD_integer = ''http://www.w3.org/2001/XMLSchema#integer''"

text \<open>
  \<open>Literal(value)\<close> with no datatype given: rdflib types an \<open>int\<close> as \<open>xsd:integer\<close> and a
  \<open>date\<close> as \<open>xsd:date\<close>, and leaves a \<open>str\<close> plain.
\<close>

fun Literal :: "pyval \<Rightarrow> node" where
  "Literal (PyInt n) = Lit (PyInt n) (Some XSD_integer) None"
| "Literal (PyDate y m d) = Lit (PyDate y m d) (Some XSD_date) None"
| "Literal v = Lit v None None"

section \<open>read_column_with_sources\<close>

datatype loglevel = DEBUG | WARNING

type_synonym log_record = "loglevel \<times> string"

text \<open>
  The result is the returned pair \<open>(value, sources)\<close> together with the records handed to
  the logger. Group 2 is never empty, so \<open>if sources\<close> holds whenever the pattern matched.
\<close>

definition read_column_with_sources ::
  "string \<Rightarrow> (string \<times> node list option) \<times> log_record list" where
  "read_column_with_sources orig_value =
     (case re_search orig_value of
        None \<Rightarrow> ((orig_value, None), [])
      | Some (val, sources, trash) \<Rightarrow>
          ((val,
            if sources \<noteq> []
            then Some (map (\<lambda>s. Literal (PyStr (strip s))) (split_comma sources))
            else None),
           (if sources \<noteq> [] then [(DEBUG, ''Found sources: '' @ sources)] else []) @
           (if trash \<noteq> [] then [(WARNING, ''Found some content after sources: '' @ trash)]
            else [])))"

section \<open>Table cells and rows\<close>

text \<open>
  A cell of the loaded table is a \<open>str\<close> or, where pandas inferred a numeric column or the
  \<open>convert_int\<close> converter of \<open>read_csv\<close> ran, an \<open>int\<close>. \<open>str(value)\<close> prints an \<open>int\<close> in
  decimal. (Floating-point cells are outside this model.)
\<close>

datatype cell = CellStr string | CellInt int

definition digit_char :: "nat \<Rightarrow> char" where
  "digit_char d = char_of (48 + d)"

fun str_nat :: "nat \<Rightarrow> string" where
  "str_nat n = (if n < 10 then [digit_char n] else str_nat (n div 10) @ [digit_char (n mod 10)])"

declare str_nat.simps [simp del]

definition str_int :: "int \<Rightarrow> string" where
  "str_int i = (if i < 0 then CHR ''-'' # str_nat (nat (- i)) else str_nat (nat i))"

fun py_str :: "cell \<Rightarrow> string" where
  "py_str (CellStr s) = s"
| "py_str (CellInt i) = str_int i"

text \<open>
  A row (a pandas \<open>Series\<close> indexed by the column names) is the list of its columns with
  their cells. \<open>row[0]\<close> is the first cell, \<open>row[column_name]\<close> the cell of that column.
\<close>

type_synonym row = "(string \<times> cell) list"

record table =
  columns :: "string list"
  rows :: "cell list list"

datatype error = IndexError | KeyError string | TypeError

section \<open>Namespaces\<close>

text \<open>
  The namespaces of \<open>csv_to_rdf.py\<close>; \<open>mapping.py\<close> takes \<open>SCHEMA_NS\<close> and \<open>BIOC\<close> from a
  module \<open>namespaces\<close> under the same names.
\<close>

definition FOAF :: uri where
  "FOAF = ''http://xmlns.com/foaf/0.1/''"

definition SKOS :: uri where
  "SKOS = ''http://www.w3.org/2004/02/skos/core#''"

definition BIOC :: uri where
  "BIOC = ''http://ldf.fi/schema/bioc/''"

definition DATA_NS :: uri where
  "DATA_NS = ''http://ldf.fi/warsa/prisoners/''"

definition SCHEMA_NS :: uri where
  "SCHEMA_NS = ''http://ldf.fi/schema/warsa/prisoners/''"

definition RDF_NS :: uri where
  "RDF_NS = ''http://www.w3.org/1999/02/22-rdf-syntax-ns#''"

definition RDF_type :: uri where
  "RDF_type = RDF_NS @ ''type''"

definition RDF_Property :: uri where
  "RDF_Property = RDF_NS @ ''Property''"

definition FOAF_givenName :: uri where
  "FOAF_givenName = FOAF @ ''givenName''"

definition FOAF_familyName :: uri where
  "FOAF_familyName = FOAF @ ''familyName''"

definition SKOS_prefLabel :: uri where
  "SKOS_prefLabel = SKOS @ ''prefLabel''"

section \<open>The mapping table\<close>

text \<open>
  One descriptor per column: the dictionary of \<open>mapping.py\<close>, with a field for every
  key that the two files read or write. A key that a dictionary does not have is
  \<open>None\<close> (or \<open>False\<close> for the two flags, which are only tested for truth).
\<close>

record descriptor =
  uri :: uri
  converter :: "(string \<Rightarrow> pyval) option"
  value_separator :: "string option"
  slash_separated :: bool
  reify_order_number :: bool
  name_fi :: "string option"
  name_en :: "string option"

definition entry ::
  "uri \<Rightarrow> (string \<Rightarrow> pyval) option \<Rightarrow> string option \<Rightarrow> string option \<Rightarrow> string option
     \<Rightarrow> descriptor" where
  "entry u conv sep fi en =
     \<lparr>uri = u, converter = conv, value_separator = sep, slash_separated = False,
      reify_order_number = False, name_fi = fi, name_en = en\<rparr>"

text \<open>
  \<open>PRISONER_MAPPING\<close>, in the order of the source. The converters \<open>convert_dates\<close> and
  \<open>strip_dash\<close> come from the module \<open>converters\<close> and are parameters here. No entry has
  the key \<open>slash_separated\<close>.
\<close>

definition PRISONER_MAPPING ::
  "(string \<Rightarrow> pyval) \<Rightarrow> (string \<Rightarrow> pyval) \<Rightarrow> (string \<times> descriptor) list" where
  "PRISONER_MAPPING convert_dates strip_dash =
     [
      (''syntym'' @ [auml] @ ''aika'',
       entry (SCHEMA_NS @ ''birth_date'') (Some convert_dates) (Some ''/'')
        (Some (''Syntym'' @ [auml] @ ''aika''))
        (Some ''Date of birth'')),
      (''syntym'' @ [auml] @ ''paikka'',
       entry (SCHEMA_NS @ ''birth_place'') None (Some ''/'')
        (Some (''Syntym'' @ [auml] @ ''kunta''))
        (Some ''Municipality of birth'')),
      (''kotipaikka'',
       entry (SCHEMA_NS @ ''home_place'') None (Some ''/'')
        (Some ''Kotikunta'')
        (Some ''Home municipality'')),
      (''asuinpaikka'',
       entry (SCHEMA_NS @ ''residence_place'') None (Some ''/'')
        (Some ''Asuinpaikka'')
        (Some ''Municipality of residence'')),
      (''ammatti'',
       entry (BIOC @ ''has_occupation'') None (Some ''/'')
        (Some ''Ammatti'')
        (Some ''Occupation'')),
      (''siviilis'' @ [auml] @ [auml] @ ''ty'',
       entry (SCHEMA_NS @ ''marital_status'') None (Some ''/'')
        (Some (''Siviilis'' @ [auml] @ [auml] @ ''ty''))
        (Some ''Marital Status'')),
      (''lasten lkm'',
       entry (SCHEMA_NS @ ''amount_children'') (Some strip_dash) (Some ''/'')
        (Some (''Lasten lukum'' @ [auml] @ [auml] @ ''r'' @ [auml]))
        (Some ''Amount of children'')),
      (''sotilasarvo'',
       entry (SCHEMA_NS @ ''rank'') None (Some ''/'')
        (Some ''Sotilasarvo'')
        (Some ''Military Rank'')),
      (''joukko-osasto'',
       entry (SCHEMA_NS @ ''unit'') None None
        (Some ''Joukko-osasto'')
        (Some ''Military Unit'')),
      (''vangiksi aika'',
       entry (SCHEMA_NS @ ''time_captured'') (Some convert_dates) (Some ''/'')
        (Some (''Vangiksi j'' @ [auml] @ [auml] @ ''misen p'' @ [auml] @ ''iv'' @ [auml] @ ''m'' @ [auml] @ [auml] @ ''r'' @ [auml]))
        (Some ''Date captured'')),
      (''vangiksi paikka, kunta'',
       entry (SCHEMA_NS @ ''place_captured_municipality'') None (Some ''/'')
        (Some (''Vangiksi j'' @ [auml] @ [auml] @ ''misen kunta''))
        (Some ''Municipality where captured'')),
      (''vangiksi paikka, kyl'' @ [auml] @ '', kaupunginosa'',
       entry (SCHEMA_NS @ ''place_captured'') None (Some ''/'')
        (Some (''Vangiksi j'' @ [auml] @ [auml] @ ''misen paikka''))
        (Some ''Place where captured'')),
      (''vangiksi, taistelupaikka'',
       entry (SCHEMA_NS @ ''place_captured_battle'') None (Some ''/'')
        (Some (''Vangiksi j'' @ [auml] @ [auml] @ ''misen taistelupaikka''))
        (Some ''Battle location where captured'')),
      (''selvitys vangiksi j'' @ [auml] @ [auml] @ ''misest'' @ [auml],
       entry (SCHEMA_NS @ ''explanation'') None None
        (Some (''Selvitys vangiksi j'' @ [auml] @ [auml] @ ''misest'' @ [auml]))
        (Some ''Description of capturing'')),
      (''palannut'',
       entry (SCHEMA_NS @ ''returned_date'') (Some convert_dates) (Some ''/'')
        (Some ''Palaamisaika'')
        (Some ''Date of returning'')),
      (''kuollut'',
       entry (SCHEMA_NS @ ''death_date'') (Some convert_dates) (Some ''/'')
        (Some ''Kuolinaika'')
        (Some ''Date of death'')),
      (''kuolinsyy'',
       entry (SCHEMA_NS @ ''cause_of_death'') None None
        (Some ''Kuolinsyy'')
        (Some ''Cause of death'')),
      (''kuolinpaikka'',
       entry (SCHEMA_NS @ ''death_place'') None (Some ''/'')
        (Some ''kuolinpaikka'')
        (Some ''Place of death'')),
      (''hautauspaikka'',
       entry (SCHEMA_NS @ ''burial_place'') None (Some '';'')
        (Some ''Hautauspaikka'')
        (Some ''Place of burial'')),
      (''vankeuspaikat'',
       (entry (SCHEMA_NS @ ''camps_and_hospitals'') None (Some '';'')
        (Some ''Vankeuspaikat'')
        (Some ''Captivity locations''))\<lparr>reify_order_number := True\<rparr>),
      ('' muita tietoja'',
       entry (SCHEMA_NS @ ''other_information'') None (Some '';'')
        (Some ''Muita tietoja'')
        (Some ''Other information'')),
      (''palanneiden kuolinaika'',
       entry (SCHEMA_NS @ ''death_date'') (Some convert_dates) (Some ''/'')
        None
        None),
      (''valokuva'',
       entry (SCHEMA_NS @ ''photograph'') None None
        (Some ''Valokuva'')
        (Some ''Photograph'')),
      (''radiossa, PM:n valvontatoimiston radiokatsaukset'',
       entry (SCHEMA_NS @ ''radio_report'') None (Some '';'')
        (Some ''Radiokatsaus'')
        (Some ''Radio report'')),
      (''Jatkosodan VEN kuulustelulomakkeet F 473, palautetut'',
       entry (SCHEMA_NS @ ''russian_interrogation_sheets'') None (Some '';'')
        (Some (''Jatkosodan ven'' @ [auml] @ ''l'' @ [auml] @ ''iset kuulustelulomakkeet''))
        (Some ''Russian interrogation sheets'')),
      (''Talvisodan kortisto'',
       entry (SCHEMA_NS @ ''winterwar_card_file'') None None
        (Some ''Talvisodan kortisto'')
        (Some ''Winter War card file'')),
      (''takavarikoitu omaisuus, arvo markoissa'',
       entry (SCHEMA_NS @ ''confiscated_possessions'') None None
        (Some ''takavarikoitu omaisuus, arvo markoissa'')
        (Some ''Confiscated possessions'')),
      (''suomenruotsalainen'',
       entry (SCHEMA_NS @ ''swedish_finn'') None None
        (Some ''Suomenruotsalainen'')
        (Some ''Swedish finn'')),
      (''Karagandan kortisto'',
       entry (SCHEMA_NS @ ''karaganda_card_file'') None None
        (Some ''Karagandan kortisto'')
        (Some ''Karaganda card file'')),
      (''Jatkosodan kortisto'',
       entry (SCHEMA_NS @ ''continuation_war_card_file'') None None
        (Some ''Jatkosodan kortisto'')
        (Some ''Continuation War card file'')),
      (''Jatkosodan VEN kuulustelulomakkeet, kuolleet F 465'',
       entry (SCHEMA_NS @ ''continuation_war_russian_card_file'') None None
        (Some (''Kuolleiden Jatkosodan ven'' @ [auml] @ ''l'' @ [auml] @ ''iset kuulustelulomakkeet''))
        (Some ''Continuation War russian card file'')),
      (''Talvisodan kokoelma'',
       entry (SCHEMA_NS @ ''winter_war_collection'') None None
        (Some ''Talvisodan kokoelma'')
        (Some ''Winter War collection'')),
      (''Talvisodan kokoelma, Moskovasta tulevat'',
       entry (SCHEMA_NS @ ''winter_war_collection_from_moscow'') None (Some '';'')
        (Some (''Talvisodan kokoelma (Moskovasta)''))
        (Some (''Winter War collection (Moscow)''))),
      (''lentolehtinen'',
       entry (SCHEMA_NS @ ''flyer'') None (Some '';'')
        (Some ''Lentolehtinen'')
        (Some ''Flyer'')),
      (''muistelmat, lehtijutut, tietokirjat, tutkimukset, Kansa taisteli-lehti'',
       entry (SCHEMA_NS @ ''memoirs'') None None
        (Some ''Muistelmat ja lehtijutut'')
        (Some ''Memoirs'')),
      (''TV-ja radio-ohjelmat, tallenne video/audio'',
       entry (SCHEMA_NS @ ''recording'') None None
        (Some (''Tallenne (video/audio)''))
        (Some (''Recording (video/audio)''))),
      (''Karjalan kansallisarkiston dokumentit'',
       entry (SCHEMA_NS @ ''karelian_archive_documents'') None None
        (Some ''Karjalan kansallisarkiston dokumentit'')
        (Some ''Karelian archive documents''))
     ]"

section \<open>The mapper\<close>

record rdfmapper =
  mapping :: "(string \<times> descriptor) list"
  instance_class :: uri
  table :: "table option"
  data :: graph
  schema :: graph

text \<open>
  Lines 107 to 112: the converter, the truth test, the literal. A \<open>date\<close> gets the
  datatype \<open>xsd:date\<close> explicitly, every other value goes through \<open>Literal(value)\<close>.
\<close>

fun is_date :: "pyval \<Rightarrow> bool" where
  "is_date (PyDate y m d) = True"
| "is_date v = False"

definition liter :: "pyval \<Rightarrow> node" where
  "liter v = (if is_date v then Lit v (Some XSD_date) None else Literal v)"

definition convert_value :: "descriptor \<Rightarrow> string \<Rightarrow> pyval" where
  "convert_value m v = (case converter m of Some f \<Rightarrow> f v | None \<Rightarrow> PyStr v)"

text \<open>
  Lines 99 to 101: with \<open>slash_separated\<close> the value is the first component of
  \<open>read_column_with_sources\<close>; the sources are not used.
\<close>

definition extract_value :: "descriptor \<Rightarrow> string \<Rightarrow> string" where
  "extract_value m v =
     (if slash_separated m then fst (fst (read_column_with_sources v)) else v)"

text \<open>The loop over the values of one field (lines 97 to 112).\<close>

fun map_values :: "uri \<Rightarrow> descriptor \<Rightarrow> string list \<Rightarrow> graph \<Rightarrow> graph" where
  "map_values entity_uri m [] row_rdf = row_rdf"
| "map_values entity_uri m (v # vs) row_rdf =
     (let value1 = extract_value m v;
          value2 = convert_value m value1
      in map_values entity_uri m vs
           (if truthy value2 then add (entity_uri, uri m, liter value2) row_rdf else row_rdf))"

text \<open>The values of one field (lines 94 and 95).\<close>

definition field_values :: "descriptor \<Rightarrow> cell \<Rightarrow> string list" where
  "field_values m v =
     (if slash_separated m then map strip (re_split_slash (py_str v)) else [strip (py_str v)])"

text \<open>The loop over the mapping (lines 81 to 112); a column that the row lacks raises \<open>KeyError\<close>.\<close>

fun map_columns ::
  "uri \<Rightarrow> uri \<Rightarrow> row \<Rightarrow> (string \<times> descriptor) list \<Rightarrow> graph \<Rightarrow> error + graph" where
  "map_columns cls entity_uri row [] row_rdf = Inr row_rdf"
| "map_columns cls entity_uri row ((column_name, m) # rest) row_rdf =
     (case map_of row column_name of
        None \<Rightarrow> Inl (KeyError column_name)
      | Some v \<Rightarrow>
          map_columns cls entity_uri row rest
            (map_values entity_uri m (field_values m v)
               (add (entity_uri, RDF_type, URIRef cls) row_rdf)))"

text \<open>
  \<open>map_row_to_rdf\<close>. \<open>convert_person_name\<close> comes from the module \<open>converters\<close> and is a
  parameter; it returns the given names, the family name and the full name.
\<close>

definition name_triples :: "uri \<Rightarrow> pyval \<times> pyval \<times> pyval \<Rightarrow> graph" where
  "name_triples entity_uri names =
     (case names of (firstnames, lastname, fullname) \<Rightarrow>
        add (entity_uri, SKOS_prefLabel, Literal fullname)
          (add (entity_uri, FOAF_familyName, Literal lastname)
             (if truthy firstnames then add (entity_uri, FOAF_givenName, Literal firstnames) {}
              else {})))"

definition map_row_to_rdf ::
  "(cell \<Rightarrow> pyval \<times> pyval \<times> pyval) \<Rightarrow> rdfmapper \<Rightarrow> uri \<Rightarrow> row \<Rightarrow> error + graph" where
  "map_row_to_rdf convert_person_name self entity_uri row =
     (case row of
        [] \<Rightarrow> Inl IndexError
      | (c0, v0) # _ \<Rightarrow>
          map_columns (instance_class self) entity_uri row (mapping self)
            (name_triples entity_uri (convert_person_name v0)))"

section \<open>process_rows\<close>

definition prisoner_uri :: "nat \<Rightarrow> uri" where
  "prisoner_uri index = DATA_NS @ ''prisoner_'' @ str_nat index"

text \<open>
  The loop over the rows, \<open>index\<close> counting from the first one. When a row raises, the loop
  ends with the error and the data graph as it was before that row.
\<close>

fun rows_loop ::
  "(cell \<Rightarrow> pyval \<times> pyval \<times> pyval) \<Rightarrow> rdfmapper \<Rightarrow> string list \<Rightarrow> nat \<Rightarrow> cell list list
     \<Rightarrow> graph \<Rightarrow> (error \<times> graph) + graph" where
  "rows_loop cpn self cols index [] d = Inr d"
| "rows_loop cpn self cols index (r # rs) d =
     (case map_row_to_rdf cpn self (prisoner_uri index) (zip cols r) of
        Inl e \<Rightarrow> Inl (e, d)
      | Inr g \<Rightarrow> rows_loop cpn self cols (Suc index) rs (iadd d g))"

text \<open>The loop over \<open>PRISONER_MAPPING.values()\<close> (lines 164 to 167).\<close>

fun schema_loop :: "descriptor list \<Rightarrow> graph \<Rightarrow> graph" where
  "schema_loop [] g = g"
| "schema_loop (prop # props) g =
     (case name_fi prop of
        Some n \<Rightarrow>
          schema_loop props
            (add (uri prop, RDF_type, URIRef RDF_Property)
               (add (uri prop, SKOS_prefLabel, Lit (PyStr n) None (Some ''fi'')) g))
      | None \<Rightarrow> schema_loop props g)"

text \<open>
  \<open>process_rows\<close>: the mapper after the call, or the error raised and the mapper at that
  moment. Without a loaded table \<open>len(self.table)\<close> raises \<open>TypeError\<close>.
\<close>

definition process_rows ::
  "(cell \<Rightarrow> pyval \<times> pyval \<times> pyval) \<Rightarrow> (string \<Rightarrow> pyval) \<Rightarrow> (string \<Rightarrow> pyval) \<Rightarrow> rdfmapper
     \<Rightarrow> (error \<times> rdfmapper) + rdfmapper" where
  "process_rows cpn convert_dates strip_dash self =
     (case table self of
        None \<Rightarrow> Inl (TypeError, self)
      | Some t \<Rightarrow>
          (case rows_loop cpn self (columns t) 0 (rows t) (data self) of
             Inl (e, d) \<Rightarrow> Inl (e, self\<lparr>data := d\<rparr>)
           | Inr d \<Rightarrow>
               Inr (self\<lparr>data := d,
                         schema := schema_loop (map snd (PRISONER_MAPPING convert_dates strip_dash))
                                     (schema self)\<rparr>)))"

text \<open>\<open>RDFMapper(mapping, instance_class)\<close> followed by \<open>read_csv\<close>.\<close>

definition new_mapper :: "(string \<times> descriptor) list \<Rightarrow> uri \<Rightarrow> table \<Rightarrow> rdfmapper" where
  "new_mapper mp cls t =
     \<lparr>mapping = mp, instance_class = cls, table = Some t, data = {}, schema = {}\<rparr>"

section \<open>Predicates used to state the properties\<close>

text \<open>Somewhere in the string a character is followed by a space and an opening parenthesis.\<close>

fun spaced_paren :: "string \<Rightarrow> bool" where
  "spaced_paren [] = False"
| "spaced_paren (a # s) = (take 2 s = '' ('' \<or> spaced_paren s)"

text \<open>
  Somewhere in the string stands a space, an opening parenthesis, one or more characters
  that are not parentheses, and a closing parenthesis.
\<close>

fun has_group :: "string \<Rightarrow> bool" where
  "has_group [] = False"
| "has_group (x # r) = (match_tail (x # r) \<noteq> None \<or> has_group r)"

text \<open>The statements that one value of a field contributes: one, or none.\<close>

definition emitted :: "uri \<Rightarrow> descriptor \<Rightarrow> string \<Rightarrow> graph" where
  "emitted e m v =
     (if truthy (convert_value m (extract_value m v))
      then {(e, uri m, liter (convert_value m (extract_value m v)))} else {})"

text \<open>The statements that one mapped column contributes, the type statement apart.\<close>

definition column_triples :: "uri \<Rightarrow> row \<Rightarrow> string \<times> descriptor \<Rightarrow> graph" where
  "column_triples e row cm =
     (case map_of row (fst cm) of
        None \<Rightarrow> {}
      | Some x \<Rightarrow> (\<Union>v\<in>set (field_values (snd cm) x). emitted e (snd cm) v))"

text \<open>The statements that one descriptor contributes to the schema graph.\<close>

definition schema_entry :: "descriptor \<Rightarrow> graph" where
  "schema_entry prop =
     (case name_fi prop of
        None \<Rightarrow> {}
      | Some n \<Rightarrow> {(uri prop, RDF_type, URIRef RDF_Property),
                   (uri prop, SKOS_prefLabel, Lit (PyStr n) None (Some ''fi''))})"

text \<open>The descriptor has the key \<open>name_fi\<close>.\<close>

definition labelled :: "descriptor \<Rightarrow> bool" where
  "labelled prop = (name_fi prop \<noteq> None)"

text \<open>The predicates of the three name statements.\<close>

definition name_predicates :: "uri set" where
  "name_predicates = {FOAF_givenName, FOAF_familyName, SKOS_prefLabel}"

text \<open>
  Somewhere in the string stand three characters that the pattern \<open>\s/\s\<close> matches.
\<close>

fun contains_sep :: "string \<Rightarrow> bool" where
  "contains_sep [] = False"
| "contains_sep (a # s) =
     ((case s of b # c # r \<Rightarrow> slash_sep a b c | _ \<Rightarrow> False) \<or> contains_sep s)"

text \<open>The number of parentheses left open at the end of a string, starting from \<open>d\<close>.\<close>

fun paren_depth :: "nat \<Rightarrow> string \<Rightarrow> nat" where
  "paren_depth d [] = d"
| "paren_depth d (c # s) =
     (if c = CHR ''('' then paren_depth (Suc d) s
      else if c = CHR '')'' then paren_depth (d - 1) s
      else paren_depth d s)"

section \<open>Facts about the pattern\<close>

lemma match_tail_SomeD:
  assumes "match_tail s = Some (g, t)"
  shows "\<exists>r. s = CHR '' '' # CHR ''('' # g @ CHR '')'' # r \<and> g \<noteq> [] \<and>
           (\<forall>c\<in>set g. not_paren c) \<and> t = takeWhile dot r"
proof -
  from assms obtain r where s: "s = CHR '' '' # CHR ''('' # r"
    by (auto simp: match_tail_def split: list.splits if_splits)
  from assms s obtain c u where d: "dropWhile not_paren r = c # u"
    and g: "g = takeWhile not_paren r" and ne: "g \<noteq> []" and c: "c = CHR '')''"
    and t: "t = takeWhile dot u"
    by (auto simp: match_tail_def split: list.splits if_splits)
  have "r = g @ c # u"
    using d g by (metis takeWhile_dropWhile_id)
  moreover have "\<forall>c\<in>set g. not_paren c"
    using g by (auto dest: set_takeWhileD)
  ultimately show ?thesis
    using s ne c t by auto
qed

lemma match_tail_group:
  assumes "g \<noteq> []" "\<forall>c\<in>set g. not_paren c"
  shows "match_tail (CHR '' '' # CHR ''('' # g @ CHR '')'' # r) = Some (g, takeWhile dot r)"
proof -
  have np: "\<not> not_paren (CHR '')'')"
    by (simp add: not_paren_def)
  have 1: "takeWhile not_paren (g @ CHR '')'' # r) = g"
    using assms(2) np by (simp add: takeWhile_append2)
  have 2: "dropWhile not_paren (g @ CHR '')'' # r) = CHR '')'' # r"
    using assms(2) np by (simp add: dropWhile_append2)
  show ?thesis
    using assms(1) by (simp add: match_tail_def 1 2)
qed

lemma match_tail_first: "a \<noteq> CHR '' '' \<Longrightarrow> match_tail (a # r) = None"
  by (cases r) (simp_all add: match_tail_def)

lemma match_tail_second: "b \<noteq> CHR ''('' \<Longrightarrow> match_tail (a # b # r) = None"
  by (simp add: match_tail_def)

subsection \<open>Strings in which the pattern cannot match\<close>

lemma match_tail_prefix: "take 2 s \<noteq> '' ('' \<Longrightarrow> match_tail s = None"
  by (auto simp: match_tail_def split: list.splits if_splits)

lemma spaced_paren_drop: "\<not> spaced_paren s \<Longrightarrow> match_tail (drop (Suc k) s) = None"
proof (induction s arbitrary: k)
  case Nil
  then show ?case by (simp add: match_tail_def)
next
  case (Cons a s)
  show ?case
  proof (cases k)
    case 0
    with Cons.prems show ?thesis by (simp add: match_tail_prefix)
  next
    case (Suc j)
    with Cons show ?thesis by simp
  qed
qed

lemma match_dotplus_None:
  "(\<forall>k. k < n \<longrightarrow> match_tail (drop (Suc k) s) = None) \<Longrightarrow> match_dotplus s n = None"
  by (induction n) auto

lemma re_search_None: "\<not> spaced_paren s \<Longrightarrow> re_search s = None"
proof (induction s)
  case Nil
  then show ?case by simp
next
  case (Cons x s)
  have "match_at (x # s) = None"
    unfolding match_at_def using Cons.prems
    by (intro match_dotplus_None) (simp add: spaced_paren_drop del: drop_Suc_Cons)
  moreover have "re_search s = None"
    using Cons by simp
  ultimately show ?case by simp
qed

lemma take2_iff: "take 2 s = '' ('' \<longleftrightarrow> (\<exists>w. s = '' ('' @ w)"
proof
  assume "take 2 s = '' (''"
  then have "s = '' ('' @ drop 2 s"
    by (metis append_take_drop_id)
  then show "\<exists>w. s = '' ('' @ w" ..
next
  assume "\<exists>w. s = '' ('' @ w"
  then show "take 2 s = '' (''" by auto
qed

text \<open>What \<^const>\<open>spaced_paren\<close> says, without recursion.\<close>

lemma spaced_paren_iff: "spaced_paren s \<longleftrightarrow> (\<exists>u w. u \<noteq> [] \<and> s = u @ '' ('' @ w)"
proof (induction s)
  case Nil
  then show ?case by simp
next
  case (Cons a s)
  show ?case
  proof
    assume "spaced_paren (a # s)"
    then consider "take 2 s = '' (''" | "spaced_paren s"
      by auto
    then show "\<exists>u w. u \<noteq> [] \<and> a # s = u @ '' ('' @ w"
    proof cases
      case 1
      then obtain w where "s = '' ('' @ w" using take2_iff by blast
      then have "a # s = [a] @ '' ('' @ w" by simp
      then show ?thesis by blast
    next
      case 2
      with Cons.IH obtain u w where "s = u @ '' ('' @ w" by auto
      then have "a # s = (a # u) @ '' ('' @ w" by simp
      then show ?thesis by blast
    qed
  next
    assume "\<exists>u w. u \<noteq> [] \<and> a # s = u @ '' ('' @ w"
    then obtain u w where u: "u \<noteq> []" and e: "a # s = u @ '' ('' @ w"
      by auto
    from u obtain x u' where u': "u = x # u'" by (cases u) auto
    with e have s: "s = u' @ '' ('' @ w" by simp
    show "spaced_paren (a # s)"
    proof (cases u')
      case Nil
      with s show ?thesis by simp
    next
      case (Cons y u'')
      with s have "\<exists>u w. u \<noteq> [] \<and> s = u @ '' ('' @ w" by blast
      then have "spaced_paren s" using Cons.IH by blast
      then show ?thesis by simp
    qed
  qed
qed

lemma no_paren_not_spaced: "CHR ''('' \<notin> set s \<Longrightarrow> \<not> spaced_paren s"
proof (induction s)
  case Nil
  then show ?case by simp
next
  case (Cons a s)
  have "take 2 s \<noteq> '' (''"
  proof
    assume "take 2 s = '' (''"
    then obtain w where "s = '' ('' @ w" using take2_iff by blast
    with Cons.prems show False by simp
  qed
  with Cons show ?case by simp
qed

subsection \<open>Strings that end in a group\<close>

lemma has_group_drop: "\<not> has_group r \<Longrightarrow> match_tail (drop i r) = None"
proof (induction r arbitrary: i)
  case Nil
  then show ?case by (simp add: match_tail_def)
next
  case (Cons x r)
  then show ?case by (cases i; cases "match_tail (x # r)") auto
qed

lemma inside_group_drop:
  assumes "\<forall>c\<in>set g. not_paren c" "\<not> has_group r"
  shows "match_tail (drop i (g @ CHR '')'' # r)) = None"
  using assms(1)
proof (induction g arbitrary: i)
  case Nil
  show ?case
  proof (cases i)
    case 0
    then show ?thesis by (simp add: match_tail_first)
  next
    case (Suc j)
    then show ?thesis using assms(2) by (simp add: has_group_drop)
  qed
next
  case (Cons c g)
  show ?case
  proof (cases i)
    case 0
    have "match_tail (c # g @ CHR '')'' # r) = None"
    proof (cases g)
      case Nil
      then show ?thesis by (simp add: match_tail_second)
    next
      case (Cons d g')
      with Cons.prems have "d \<noteq> CHR ''(''" by (auto simp: not_paren_def)
      with Cons show ?thesis by (simp add: match_tail_second)
    qed
    with 0 show ?thesis by simp
  next
    case (Suc j)
    with Cons show ?thesis by simp
  qed
qed

lemma after_group_drop:
  assumes "\<forall>c\<in>set g. not_paren c" "\<not> has_group r"
  shows "match_tail (drop (Suc j) (CHR '' '' # CHR ''('' # g @ CHR '')'' # r)) = None"
proof (cases j)
  case 0
  then show ?thesis by (simp add: match_tail_first)
next
  case (Suc k)
  then show ?thesis using inside_group_drop [OF assms] by simp
qed

lemma match_dotplus_skip:
  "(\<forall>k. m \<le> k \<and> k < n \<longrightarrow> match_tail (drop (Suc k) s) = None) \<Longrightarrow> m \<le> n \<Longrightarrow>
     match_dotplus s n = match_dotplus s m"
proof (induction n)
  case 0
  then show ?case by simp
next
  case (Suc n)
  show ?case
  proof (cases "m = Suc n")
    case True
    then show ?thesis by simp
  next
    case False
    with Suc.prems have le: "m \<le> n" by simp
    from Suc.prems le have "match_tail (drop (Suc n) s) = None" by simp
    moreover have "match_dotplus s n = match_dotplus s m"
      using Suc.prems le by (intro Suc.IH) auto
    ultimately show ?thesis by simp
  qed
qed

lemma match_dotplus_hit:
  "match_tail (drop (Suc m) s) = Some (g, t) \<Longrightarrow>
     match_dotplus s (Suc m) = Some (take (Suc m) s, g, t)"
  by simp

lemma match_at_group:
  assumes v: "v \<noteq> []" "newline \<notin> set v"
      and g: "g \<noteq> []" "\<forall>c\<in>set g. not_paren c"
      and r: "\<not> has_group r"
  shows "match_at (v @ '' ('' @ g @ '')'' @ r) = Some (v, g, takeWhile dot r)"
proof -
  let ?tl = "CHR '' '' # CHR ''('' # g @ CHR '')'' # r"
  let ?s = "v @ ?tl"
  let ?n = "length (takeWhile dot ?s)"
  have dv: "\<forall>c\<in>set v. dot c"
    using v(2) by (auto simp: dot_def)
  have "takeWhile dot ?s = v @ takeWhile dot ?tl"
    using dv by (simp add: takeWhile_append2)
  then have len: "length v \<le> ?n" by simp
  obtain m where m: "length v = Suc m"
    using v(1) by (cases v) auto
  have none: "\<forall>k. length v \<le> k \<and> k < ?n \<longrightarrow> match_tail (drop (Suc k) ?s) = None"
  proof (intro allI impI)
    fix k assume "length v \<le> k \<and> k < ?n"
    then have "drop (Suc k) ?s = drop (Suc (k - length v)) ?tl"
      by (simp add: Suc_diff_le)
    then show "match_tail (drop (Suc k) ?s) = None"
      using after_group_drop [OF g(2) r] by simp
  qed
  have dr: "drop (Suc m) ?s = ?tl" and tk: "take (Suc m) ?s = v"
    by (simp_all add: m [symmetric])
  have "match_dotplus ?s ?n = match_dotplus ?s (Suc m)"
    using none len unfolding m by (rule match_dotplus_skip)
  also have "\<dots> = Some (v, g, takeWhile dot r)"
    using match_tail_group [OF g, of r] by (simp only: match_dotplus_hit dr tk)
  finally show ?thesis
    by (simp add: match_at_def)
qed

lemma re_search_group:
  assumes v: "v \<noteq> []" "newline \<notin> set v"
      and g: "g \<noteq> []" "\<forall>c\<in>set g. not_paren c"
      and r: "\<not> has_group r"
  shows "re_search (v @ '' ('' @ g @ '')'' @ r) = Some (v, g, takeWhile dot r)"
proof -
  obtain x v' where xv: "v = x # v'"
    using v(1) by (cases v) auto
  have "match_at (v @ '' ('' @ g @ '')'' @ r) = Some (v, g, takeWhile dot r)"
    using assms by (rule match_at_group)
  then show ?thesis
    unfolding xv by simp
qed

text \<open>What \<^const>\<open>has_group\<close> says, without recursion.\<close>

lemma has_group_iff:
  "has_group r \<longleftrightarrow>
     (\<exists>a g b. r = a @ '' ('' @ g @ '')'' @ b \<and> g \<noteq> [] \<and> (\<forall>c\<in>set g. not_paren c))"
proof (induction r)
  case Nil
  then show ?case by simp
next
  case (Cons x r)
  show ?case
  proof
    assume "has_group (x # r)"
    then consider "match_tail (x # r) \<noteq> None" | "has_group r"
      by auto
    then show "\<exists>a g b. x # r = a @ '' ('' @ g @ '')'' @ b \<and> g \<noteq> [] \<and> (\<forall>c\<in>set g. not_paren c)"
    proof cases
      case 1
      then obtain g t where "match_tail (x # r) = Some (g, t)" by auto
      from match_tail_SomeD [OF this] obtain b where
        "x # r = [] @ '' ('' @ g @ '')'' @ b" "g \<noteq> []" "\<forall>c\<in>set g. not_paren c"
        by auto
      then show ?thesis by blast
    next
      case 2
      with Cons.IH obtain a g b where
        "r = a @ '' ('' @ g @ '')'' @ b" "g \<noteq> []" "\<forall>c\<in>set g. not_paren c"
        by auto
      then have "x # r = (x # a) @ '' ('' @ g @ '')'' @ b" by simp
      with \<open>g \<noteq> []\<close> \<open>\<forall>c\<in>set g. not_paren c\<close> show ?thesis by blast
    qed
  next
    assume "\<exists>a g b. x # r = a @ '' ('' @ g @ '')'' @ b \<and> g \<noteq> [] \<and> (\<forall>c\<in>set g. not_paren c)"
    then obtain a g b where e: "x # r = a @ '' ('' @ g @ '')'' @ b"
      and g: "g \<noteq> []" "\<forall>c\<in>set g. not_paren c"
      by auto
    show "has_group (x # r)"
    proof (cases a)
      case Nil
      with e have "x # r = CHR '' '' # CHR ''('' # g @ CHR '')'' # b" by simp
      then show ?thesis using match_tail_group [OF g, of b] by simp
    next
      case (Cons y a')
      with e have "r = a' @ '' ('' @ g @ '')'' @ b" by simp
      with g have "has_group r" using Cons.IH by blast
      then show ?thesis by simp
    qed
  qed
qed

section \<open>Inline sources\<close>

text \<open>
  C2, as amended. \<open>read_column_with_sources\<close> on a string without an opening parenthesis
  returns the string itself and no sources, and logs nothing. On a string
  \<open>v (g)r\<close>, where \<open>v\<close> is not empty and has no line break, \<open>g\<close> is not empty and has no
  parenthesis, and no further such group follows in \<open>r\<close>, it returns \<open>v\<close> and the
  pieces of \<open>g\<close> between its commas, each trimmed. The group found is thus the last one
  whose content has no parenthesis, whether or not it lies inside another parenthesis.
  What follows the closing parenthesis is not part of the value; up to the end of its line
  it is reported in a warning, when it is not empty.
\<close>

theorem read_column_with_sources_last_group:
  "(CHR ''('' \<notin> set s \<longrightarrow> read_column_with_sources s = ((s, None), [])) \<and>
   (v \<noteq> [] \<and> newline \<notin> set v \<and> g \<noteq> [] \<and> (\<forall>c\<in>set g. not_paren c) \<and> \<not> has_group r \<longrightarrow>
      read_column_with_sources (v @ '' ('' @ g @ '')'' @ r) =
        ((v, Some (map (\<lambda>x. Literal (PyStr (strip x))) (split_comma g))),
         (DEBUG, ''Found sources: '' @ g) #
         (if takeWhile dot r = [] then []
          else [(WARNING, ''Found some content after sources: '' @ takeWhile dot r)])))"
proof (intro conjI impI)
  assume "CHR ''('' \<notin> set s"
  then have "re_search s = None"
    by (intro re_search_None no_paren_not_spaced)
  then show "read_column_with_sources s = ((s, None), [])"
    by (simp add: read_column_with_sources_def)
next
  assume a: "v \<noteq> [] \<and> newline \<notin> set v \<and> g \<noteq> [] \<and> (\<forall>c\<in>set g. not_paren c) \<and> \<not> has_group r"
  then have "re_search (v @ '' ('' @ g @ '')'' @ r) = Some (v, g, takeWhile dot r)"
    by (intro re_search_group) auto
  then show "read_column_with_sources (v @ '' ('' @ g @ '')'' @ r) =
        ((v, Some (map (\<lambda>x. Literal (PyStr (strip x))) (split_comma g))),
         (DEBUG, ''Found sources: '' @ g) #
         (if takeWhile dot r = [] then []
          else [(WARNING, ''Found some content after sources: '' @ takeWhile dot r)]))"
    using a by (simp add: read_column_with_sources_def)
qed

theorem read_column_with_sources_last_group_witness:
  "read_column_with_sources ''Helsinki'' = ((''Helsinki'', None), []) \<and>
   read_column_with_sources ''Helsinki (Smith, Jones) extra'' =
     ((''Helsinki'', Some [Lit (PyStr ''Smith'') None None, Lit (PyStr ''Jones'') None None]),
      [(DEBUG, ''Found sources: Smith, Jones''),
       (WARNING, ''Found some content after sources:  extra'')])"
  using read_column_with_sources_last_group
    [of "''Helsinki''" "''Helsinki''" "''Smith, Jones''" "'' extra''"]
  by (simp add: newline_def not_paren_def match_tail_def dot_def split_comma_def strip_def
      is_space_def)

text \<open>
  The group that is found can lie inside another parenthesis: in \<open>x (a (b))\<close> the
  sources are taken from \<open>(b)\<close>, and the returned value \<open>x (a\<close> leaves a parenthesis open.
\<close>

theorem read_column_with_sources_nested_counterexample:
  "fst (read_column_with_sources ''x (a (b))'') = (''x (a'', Some [Literal (PyStr ''b'')]) \<and>
   paren_depth 0 ''x (a'' = 1"
  by code_simp

text \<open>
  C10. A string in which no opening parenthesis stands after a space that itself stands
  after some character, such as \<open>Helsinki(Smith)\<close> or \<open>(Smith)\<close>, comes back unchanged,
  with no sources and no log record.
\<close>

theorem read_column_with_sources_needs_space:
  "\<not> spaced_paren s \<Longrightarrow> read_column_with_sources s = ((s, None), [])"
  by (simp add: read_column_with_sources_def re_search_None)

theorem read_column_with_sources_needs_space_witness:
  "\<not> spaced_paren ''Helsinki(Smith)'' \<and>
   read_column_with_sources ''Helsinki(Smith)'' = ((''Helsinki(Smith)'', None), []) \<and>
   \<not> spaced_paren ''(Smith)'' \<and>
   read_column_with_sources ''(Smith)'' = ((''(Smith)'', None), [])"
  using read_column_with_sources_needs_space [of "''Helsinki(Smith)''"]
    read_column_with_sources_needs_space [of "''(Smith)''"]
  by simp

section \<open>Subjects and graphs\<close>








lemma map_values_eq: "map_values e m vs g = g \<union> (\<Union>v\<in>set vs. emitted e m v)"
  by (induction vs arbitrary: g) (auto simp: Let_def add_def emitted_def)

lemma map_columns_eq:
  "map_columns cls e row mp g = Inr G \<Longrightarrow>
     G = g \<union> (if mp = [] then {} else {(e, RDF_type, URIRef cls)}) \<union>
           (\<Union>cm\<in>set mp. column_triples e row cm)"
proof (induction mp arbitrary: g)
  case Nil
  then show ?case by simp
next
  case (Cons cm mp)
  obtain c m where cm: "cm = (c, m)" by (cases cm)
  from Cons.prems cm obtain v where v: "map_of row c = Some v"
    and rec: "map_columns cls e row mp
      (map_values e m (field_values m v) (add (e, RDF_type, URIRef cls) g)) = Inr G"
    by (auto split: option.splits)
  have ct: "column_triples e row cm = (\<Union>p\<in>set (field_values m v). emitted e m p)"
    by (simp add: column_triples_def cm v)
  show ?case
    unfolding Cons.IH [OF rec] map_values_eq ct [symmetric] add_def by auto
qed

lemma map_columns_total:
  "fst ` set mp \<subseteq> fst ` set row \<Longrightarrow> \<exists>G. map_columns cls e row mp g = Inr G"
proof (induction mp arbitrary: g)
  case Nil
  then show ?case by simp
next
  case (Cons cm mp)
  obtain c m where cm: "cm = (c, m)" by (cases cm)
  with Cons.prems have "c \<in> fst ` set row" by simp
  then obtain v where "map_of row c = Some v"
    by (metis map_of_eq_None_iff not_Some_eq)
  with Cons cm show ?case by simp
qed

lemma map_columns_KeyError:
  "map_columns cls e row mp g = Inl err \<Longrightarrow>
     \<exists>c. err = KeyError c \<and> c \<in> fst ` set mp \<and> c \<notin> fst ` set row"
proof (induction mp arbitrary: g)
  case Nil
  then show ?case by simp
next
  case (Cons cm mp)
  obtain c m where cm: "cm = (c, m)" by (cases cm)
  show ?case
  proof (cases "map_of row c")
    case None
    with Cons.prems cm have "err = KeyError c" by simp
    moreover from None have "c \<notin> fst ` set row" by (simp add: map_of_eq_None_iff)
    ultimately show ?thesis using cm by auto
  next
    case (Some v)
    with Cons.prems cm have "map_columns cls e row mp
      (map_values e m (field_values m v) (add (e, RDF_type, URIRef cls) g)) = Inl err" by simp
    from Cons.IH [OF this] show ?thesis by auto
  qed
qed





lemma map_row_eq:
  assumes "map_row_to_rdf cpn self e row = Inr G"
  shows "\<exists>c0 v0 rest. row = (c0, v0) # rest \<and>
     G = name_triples e (cpn v0) \<union>
         (if mapping self = [] then {} else {(e, RDF_type, URIRef (instance_class self))}) \<union>
         (\<Union>cm\<in>set (mapping self). column_triples e row cm)"
proof -
  from assms obtain c0 v0 rest where row: "row = (c0, v0) # rest"
    and mc: "map_columns (instance_class self) e row (mapping self)
      (name_triples e (cpn v0)) = Inr G"
    by (auto simp: map_row_to_rdf_def split: list.splits)
  from map_columns_eq [OF mc] row show ?thesis by blast
qed





lemma rows_loop_mono: "rows_loop cpn self cols i rs d = Inr D \<Longrightarrow> d \<subseteq> D"
proof (induction rs arbitrary: i d)
  case Nil
  then show ?case by simp
next
  case (Cons r rs)
  from Cons.prems obtain g where
    rec: "rows_loop cpn self cols (Suc i) rs (iadd d g) = Inr D"
    by (auto split: sum.splits)
  from Cons.IH [OF rec] show ?case by (auto simp: iadd_def)
qed

lemma rows_loop_row:
  "rows_loop cpn self cols i rs d = Inr D \<Longrightarrow> k < length rs \<Longrightarrow>
     \<exists>g. map_row_to_rdf cpn self (prisoner_uri (i + k)) (zip cols (rs ! k)) = Inr g \<and> g \<subseteq> D"
proof (induction rs arbitrary: i d k)
  case Nil
  then show ?case by simp
next
  case (Cons r rs)
  from Cons.prems(1) obtain g where
    g: "map_row_to_rdf cpn self (prisoner_uri i) (zip cols r) = Inr g"
    and rec: "rows_loop cpn self cols (Suc i) rs (iadd d g) = Inr D"
    by (auto split: sum.splits)
  show ?case
  proof (cases k)
    case 0
    from rows_loop_mono [OF rec] have "g \<subseteq> D" by (auto simp: iadd_def)
    with g 0 show ?thesis by simp
  next
    case (Suc j)
    with Cons.prems(2) have "j < length rs" by simp
    from Cons.IH [OF rec this] Suc show ?thesis by simp
  qed
qed

text \<open>
  C9. Merging a statement set into the data graph a second time changes nothing, and
  neither does adding a statement that the graph already has. After a run of
  \<open>process_rows\<close>, merging the statement set of any row of the table into the data graph
  once more leaves the data graph as it is.
\<close>

theorem merge_idempotent:
  "iadd (iadd d g) g = iadd d g \<and> add t (add t g) = add t g \<and>
   (process_rows cpn cd sd self = Inr self' \<and> table self = Some tb \<and> k < length (rows tb) \<and>
    map_row_to_rdf cpn self (prisoner_uri k) (zip (columns tb) (rows tb ! k)) = Inr g' \<longrightarrow>
      iadd (data self') g' = data self')"
proof (intro conjI impI)
  show "iadd (iadd d g) g = iadd d g"
    by (auto simp: iadd_def)
  show "add t (add t g) = add t g"
    by (simp add: add_def)
  assume a: "process_rows cpn cd sd self = Inr self' \<and> table self = Some tb \<and>
    k < length (rows tb) \<and>
    map_row_to_rdf cpn self (prisoner_uri k) (zip (columns tb) (rows tb ! k)) = Inr g'"
  then have loop: "rows_loop cpn self (columns tb) 0 (rows tb) (data self) = Inr (data self')"
    by (auto simp: process_rows_def split: sum.splits prod.splits)
  from rows_loop_row [OF loop, of k] a have "g' \<subseteq> data self'"
    by auto
  then show "iadd (data self') g' = data self'"
    by (auto simp: iadd_def)
qed

section \<open>The schema graph\<close>

lemma schema_loop_eq: "schema_loop props g = g \<union> (\<Union>prop\<in>set props. schema_entry prop)"
  by (induction props arbitrary: g) (auto simp: schema_entry_def add_def split: option.splits)

lemma schema_entry_subject: "t \<in> schema_entry prop \<Longrightarrow> fst t = uri prop \<and> labelled prop"
  by (auto simp: schema_entry_def labelled_def split: option.splits)

lemma schema_entry_card: "card (schema_entry prop) = (if labelled prop then 2 else 0)"
  by (auto simp: schema_entry_def labelled_def split: option.splits)

lemma schema_entry_finite: "finite (schema_entry prop)"
  by (auto simp: schema_entry_def split: option.splits)

lemma schema_card:
  "distinct (map uri (filter labelled props)) \<Longrightarrow>
     card (\<Union>prop\<in>set props. schema_entry prop) = 2 * length (filter labelled props)"
proof (induction props)
  case Nil
  then show ?case by simp
next
  case (Cons p props)
  let ?rest = "\<Union>prop\<in>set props. schema_entry prop"
  have fin: "finite ?rest" by (simp add: schema_entry_finite)
  show ?case
  proof (cases "labelled p")
    case False
    then have "schema_entry p = {}" by (simp add: schema_entry_def labelled_def)
    with False Cons show ?thesis by simp
  next
    case True
    with Cons.prems have new: "uri p \<notin> uri ` set (filter labelled props)"
      and d: "distinct (map uri (filter labelled props))" by simp_all
    have "schema_entry p \<inter> ?rest = {}"
    proof (rule ccontr)
      assume "schema_entry p \<inter> ?rest \<noteq> {}"
      then obtain t q where "t \<in> schema_entry p" "q \<in> set props" "t \<in> schema_entry q" by auto
      then have "uri q = uri p" "labelled q" using schema_entry_subject by metis+
      with \<open>q \<in> set props\<close> have "q \<in> set (filter labelled props)" by simp
      then have "uri q \<in> uri ` set (filter labelled props)" by (rule imageI)
      with \<open>uri q = uri p\<close> new show False by simp
    qed
    then have "card (schema_entry p \<union> ?rest) = card (schema_entry p) + card ?rest"
      using fin schema_entry_finite by (simp add: card_Un_disjoint)
    with True Cons.IH [OF d] show ?thesis by (simp add: schema_entry_card)
  qed
qed

lemma PRISONER_MAPPING_labelled:
  "length (filter labelled (map snd (PRISONER_MAPPING cd sd))) = 36"
  by (simp add: PRISONER_MAPPING_def entry_def labelled_def)

lemma BIOC_SCHEMA: "BIOC @ a \<noteq> SCHEMA_NS @ b" "SCHEMA_NS @ b \<noteq> BIOC @ a"
  by (simp_all add: BIOC_def SCHEMA_NS_def)

lemma PRISONER_MAPPING_distinct:
  "distinct (map uri (filter labelled (map snd (PRISONER_MAPPING cd sd))))"
  by (simp add: PRISONER_MAPPING_def entry_def labelled_def BIOC_SCHEMA)

lemma process_rows_schema_loop:
  assumes "process_rows cpn cd sd (new_mapper mp cls t) = Inr self'"
  shows "schema self' = schema_loop (map snd (PRISONER_MAPPING cd sd)) {}"
  using assms
  by (auto simp: process_rows_def new_mapper_def split: sum.splits prod.splits)

lemma process_rows_schema:
  assumes "process_rows cpn cd sd (new_mapper mp cls t) = Inr self'"
  shows "schema self' = (\<Union>prop\<in>set (map snd (PRISONER_MAPPING cd sd)). schema_entry prop)"
  by (simp add: process_rows_schema_loop [OF assms] schema_loop_eq)

text \<open>
  C4. After a run of \<open>process_rows\<close> on a fresh mapper, whatever the table, the schema
  graph is the one built from \<open>PRISONER_MAPPING\<close> alone, and it has two statements for
  each descriptor with a label: 72 statements for the 36 labelled descriptors.
\<close>

theorem schema_graph_size:
  assumes "process_rows cpn cd sd (new_mapper mp cls t) = Inr self'"
  shows "schema self' = schema_loop (map snd (PRISONER_MAPPING cd sd)) {} \<and>
         card (schema self') = 2 * length (filter labelled (map snd (PRISONER_MAPPING cd sd))) \<and>
         card (schema self') = 72"
proof -
  have 1: "schema self' = schema_loop (map snd (PRISONER_MAPPING cd sd)) {}"
    using assms by (rule process_rows_schema_loop)
  have 2: "card (schema self') = 2 * length (filter labelled (map snd (PRISONER_MAPPING cd sd)))"
    unfolding process_rows_schema [OF assms]
    using PRISONER_MAPPING_distinct by (rule schema_card)
  then have 3: "card (schema self') = 72"
    by (simp only: PRISONER_MAPPING_labelled)
  from 1 2 3 show ?thesis by simp
qed

text \<open>A run on a table with the one row above.\<close>

lemma example_run:
  "process_rows (\<lambda>c. (PyNone, PyStr (py_str c), PyStr (py_str c))) PyStr PyStr
     (new_mapper [(''ammatti'', entry (BIOC @ ''has_occupation'') None (Some ''/'')
                     (Some ''Ammatti'') (Some ''Occupation''))]
        (SCHEMA_NS @ ''PrisonerOfWar'')
        \<lparr>columns = [''nimi'', ''ammatti''], rows = [[CellStr ''Virtanen'', CellStr ''seppa'']]\<rparr>)
   = Inr ((new_mapper [(''ammatti'', entry (BIOC @ ''has_occupation'') None (Some ''/'')
                     (Some ''Ammatti'') (Some ''Occupation''))]
        (SCHEMA_NS @ ''PrisonerOfWar'')
        \<lparr>columns = [''nimi'', ''ammatti''], rows = [[CellStr ''Virtanen'', CellStr ''seppa'']]\<rparr>)
          \<lparr>data := {(prisoner_uri 0, SKOS_prefLabel, Lit (PyStr ''Virtanen'') None None),
                  (prisoner_uri 0, FOAF_familyName, Lit (PyStr ''Virtanen'') None None),
                  (prisoner_uri 0, RDF_type, URIRef (SCHEMA_NS @ ''PrisonerOfWar'')),
                  (prisoner_uri 0, BIOC @ ''has_occupation'', Lit (PyStr ''seppa'') None None)},
           schema := schema_loop (map snd (PRISONER_MAPPING PyStr PyStr)) {}\<rparr>)"
  by (simp add: process_rows_def new_mapper_def map_row_to_rdf_def name_triples_def add_def
        iadd_def field_values_def entry_def strip_def is_space_def extract_value_def
        convert_value_def liter_def insert_commute)

theorem schema_graph_size_witness:
  "process_rows (\<lambda>c. (PyNone, PyStr (py_str c), PyStr (py_str c))) PyStr PyStr
     (new_mapper [(''ammatti'', entry (BIOC @ ''has_occupation'') None (Some ''/'')
                     (Some ''Ammatti'') (Some ''Occupation''))]
        (SCHEMA_NS @ ''PrisonerOfWar'')
        \<lparr>columns = [''nimi'', ''ammatti''], rows = [[CellStr ''Virtanen'', CellStr ''seppa'']]\<rparr>)
   = Inr ((new_mapper [(''ammatti'', entry (BIOC @ ''has_occupation'') None (Some ''/'')
                     (Some ''Ammatti'') (Some ''Occupation''))]
        (SCHEMA_NS @ ''PrisonerOfWar'')
        \<lparr>columns = [''nimi'', ''ammatti''], rows = [[CellStr ''Virtanen'', CellStr ''seppa'']]\<rparr>)
          \<lparr>data := {(prisoner_uri 0, SKOS_prefLabel, Lit (PyStr ''Virtanen'') None None),
                  (prisoner_uri 0, FOAF_familyName, Lit (PyStr ''Virtanen'') None None),
                  (prisoner_uri 0, RDF_type, URIRef (SCHEMA_NS @ ''PrisonerOfWar'')),
                  (prisoner_uri 0, BIOC @ ''has_occupation'', Lit (PyStr ''seppa'') None None)},
           schema := schema_loop (map snd (PRISONER_MAPPING PyStr PyStr)) {}\<rparr>) \<and>
   card (schema_loop (map snd (PRISONER_MAPPING PyStr PyStr)) {}) = 72"
  using schema_graph_size [OF example_run] example_run by simp

theorem merge_idempotent_witness:
  "iadd {(prisoner_uri 0, SKOS_prefLabel, Lit (PyStr ''Virtanen'') None None),
         (prisoner_uri 0, FOAF_familyName, Lit (PyStr ''Virtanen'') None None),
         (prisoner_uri 0, RDF_type, URIRef (SCHEMA_NS @ ''PrisonerOfWar'')),
         (prisoner_uri 0, BIOC @ ''has_occupation'', Lit (PyStr ''seppa'') None None)}
        {(prisoner_uri 0, SKOS_prefLabel, Lit (PyStr ''Virtanen'') None None),
         (prisoner_uri 0, FOAF_familyName, Lit (PyStr ''Virtanen'') None None),
         (prisoner_uri 0, RDF_type, URIRef (SCHEMA_NS @ ''PrisonerOfWar'')),
         (prisoner_uri 0, BIOC @ ''has_occupation'', Lit (PyStr ''seppa'') None None)} =
     {(prisoner_uri 0, SKOS_prefLabel, Lit (PyStr ''Virtanen'') None None),
      (prisoner_uri 0, FOAF_familyName, Lit (PyStr ''Virtanen'') None None),
      (prisoner_uri 0, RDF_type, URIRef (SCHEMA_NS @ ''PrisonerOfWar'')),
      (prisoner_uri 0, BIOC @ ''has_occupation'', Lit (PyStr ''seppa'') None None)}"
proof -
  let ?cpn = "\<lambda>c. (PyNone, PyStr (py_str c), PyStr (py_str c))"
  let ?tb = "\<lparr>columns = [''nimi'', ''ammatti''],
             rows = [[CellStr ''Virtanen'', CellStr ''seppa'']]\<rparr>"
  let ?self = "new_mapper [(''ammatti'', entry (BIOC @ ''has_occupation'') None (Some ''/'')
                     (Some ''Ammatti'') (Some ''Occupation''))]
        (SCHEMA_NS @ ''PrisonerOfWar'') ?tb"
  let ?G = "{(prisoner_uri 0, SKOS_prefLabel, Lit (PyStr ''Virtanen'') None None),
         (prisoner_uri 0, FOAF_familyName, Lit (PyStr ''Virtanen'') None None),
         (prisoner_uri 0, RDF_type, URIRef (SCHEMA_NS @ ''PrisonerOfWar'')),
         (prisoner_uri 0, BIOC @ ''has_occupation'', Lit (PyStr ''seppa'') None None)}"
  have row: "map_row_to_rdf ?cpn ?self (prisoner_uri 0) (zip (columns ?tb) (rows ?tb ! 0)) =
      Inr ?G"
    by (simp add: new_mapper_def map_row_to_rdf_def name_triples_def add_def
        field_values_def entry_def strip_def is_space_def extract_value_def
        convert_value_def liter_def insert_commute)
  have h: "table ?self = Some ?tb" "0 < length (rows ?tb)"
    by (simp_all add: new_mapper_def)
  note m = mp [OF conjunct2 [OF conjunct2 [OF merge_idempotent
    [where cpn = ?cpn and cd = PyStr and sd = PyStr and self = ?self and tb = ?tb and k = 0
       and g' = ?G]]] conjI [OF example_run conjI [OF h(1) conjI [OF h(2) row]]]]
  then show ?thesis
    by simp
qed

text \<open>
  C5, as amended. After a run of \<open>process_rows\<close> on a fresh mapper the schema graph holds,
  for every descriptor of \<open>PRISONER_MAPPING\<close> with a Finnish name, whether or not a row
  uses its predicate, the statement that the predicate is an \<open>rdf:Property\<close> and its
  \<open>skos:prefLabel\<close> with the Finnish name, tagged \<open>fi\<close>. It holds nothing else: the
  English names are not in it.
\<close>

theorem schema_graph_finnish_labels:
  assumes "process_rows cpn cd sd (new_mapper mp cls t) = Inr self'"
  shows "(\<forall>prop\<in>set (map snd (PRISONER_MAPPING cd sd)). \<forall>n. name_fi prop = Some n \<longrightarrow>
            (uri prop, RDF_type, URIRef RDF_Property) \<in> schema self' \<and>
            (uri prop, SKOS_prefLabel, Lit (PyStr n) None (Some ''fi'')) \<in> schema self') \<and>
         (\<forall>t\<in>schema self'. \<exists>prop\<in>set (map snd (PRISONER_MAPPING cd sd)). \<exists>n.
            name_fi prop = Some n \<and>
            (t = (uri prop, RDF_type, URIRef RDF_Property) \<or>
             t = (uri prop, SKOS_prefLabel, Lit (PyStr n) None (Some ''fi''))))"
  unfolding process_rows_schema [OF assms]
  by (auto simp: schema_entry_def split: option.splits)

theorem schema_graph_finnish_labels_witness:
  "(SCHEMA_NS @ ''home_place'', RDF_type, URIRef RDF_Property)
     \<in> schema_loop (map snd (PRISONER_MAPPING PyStr PyStr)) {} \<and>
   (SCHEMA_NS @ ''home_place'', SKOS_prefLabel, Lit (PyStr ''Kotikunta'') None (Some ''fi''))
     \<in> schema_loop (map snd (PRISONER_MAPPING PyStr PyStr)) {}"
proof -
  let ?home = "entry (SCHEMA_NS @ ''home_place'') None (Some ''/'')
                 (Some ''Kotikunta'') (Some ''Home municipality'')"
  have mem: "?home \<in> set (map snd (PRISONER_MAPPING PyStr PyStr))"
    by (simp add: PRISONER_MAPPING_def)
  have fi: "name_fi ?home = Some ''Kotikunta''" and u: "uri ?home = SCHEMA_NS @ ''home_place''"
    by (simp_all add: entry_def)
  note a = mp [OF spec [OF bspec [OF conjunct1 [OF schema_graph_finnish_labels [OF example_run]]
    mem]] fi]
  then show ?thesis
    by (simp add: u new_mapper_def)
qed

text \<open>
  The descriptor of \<open>kotipaikka\<close> has the English name \<open>Home municipality\<close>; the schema
  graph has no statement with it.
\<close>

theorem schema_graph_finnish_labels_counterexample:
  "schema_loop [entry (SCHEMA_NS @ ''home_place'') None (Some ''/'')
                  (Some ''Kotikunta'') (Some ''Home municipality'')] {} =
     {(SCHEMA_NS @ ''home_place'', RDF_type, URIRef RDF_Property),
      (SCHEMA_NS @ ''home_place'', SKOS_prefLabel, Lit (PyStr ''Kotikunta'') None (Some ''fi''))} \<and>
   (SCHEMA_NS @ ''home_place'', SKOS_prefLabel, Lit (PyStr ''Home municipality'') None (Some ''en''))
     \<notin> schema_loop (map snd (PRISONER_MAPPING PyStr PyStr)) {}"
proof
  show "schema_loop [entry (SCHEMA_NS @ ''home_place'') None (Some ''/'')
                  (Some ''Kotikunta'') (Some ''Home municipality'')] {} =
     {(SCHEMA_NS @ ''home_place'', RDF_type, URIRef RDF_Property),
      (SCHEMA_NS @ ''home_place'', SKOS_prefLabel, Lit (PyStr ''Kotikunta'') None (Some ''fi''))}"
    by (simp add: entry_def add_def)
  have "\<forall>t\<in>schema_loop (map snd (PRISONER_MAPPING PyStr PyStr)) {}.
          \<forall>v d. snd (snd t) \<noteq> Lit v d (Some ''en'')"
    unfolding schema_loop_eq by (auto simp: schema_entry_def split: option.splits)
  then show "(SCHEMA_NS @ ''home_place'', SKOS_prefLabel,
      Lit (PyStr ''Home municipality'') None (Some ''en''))
     \<notin> schema_loop (map snd (PRISONER_MAPPING PyStr PyStr)) {}"
    by fastforce
qed

lemma map_columns_Inr_keys:
  "map_columns cls e row mp g = Inr G \<Longrightarrow> fst ` set mp \<subseteq> fst ` set row"
proof (induction mp arbitrary: g)
  case Nil
  then show ?case by simp
next
  case (Cons cm mp)
  obtain c m where cm: "cm = (c, m)" by (cases cm)
  from Cons.prems cm obtain v where v: "map_of row c = Some v"
    and rec: "map_columns cls e row mp
      (map_values e m (field_values m v) (add (e, RDF_type, URIRef cls) g)) = Inr G"
    by (auto split: option.splits)
  from v have "(c, v) \<in> set row" by (rule map_of_SomeD)
  then have "c \<in> fst ` set row" by force
  with Cons.IH [OF rec] cm show ?case by simp
qed

lemma map_columns_missing:
  assumes "c \<in> fst ` set mp" "c \<notin> fst ` set row"
  shows "\<exists>c'. map_columns cls e row mp g = Inl (KeyError c') \<and> c' \<in> fst ` set mp \<and>
           c' \<notin> fst ` set row"
proof (cases "map_columns cls e row mp g")
  case (Inl err)
  with map_columns_KeyError [OF Inl] show ?thesis by auto
next
  case (Inr G)
  from map_columns_Inr_keys [OF Inr] assms show ?thesis by auto
qed

lemma zip_keys: "length r = length cols \<Longrightarrow> fst ` set (zip cols r) = set cols"
  by (metis map_fst_zip set_map)

text \<open>
  C6, as amended. Nothing checks the mapping against the columns before the rows are
  read. On a table without rows \<open>process_rows\<close> raises nothing and builds the schema
  graph. On a table with a first row, when the mapping names a column that the table
  lacks, the first row raises \<open>KeyError\<close> for a mapped column that is missing, and the
  mapper is left as it was: nothing has been merged into the data graph.
\<close>

theorem missing_column_KeyError:
  "(table self = Some t \<and> rows t = [] \<longrightarrow>
      process_rows cpn cd sd self =
        Inr (self\<lparr>schema := schema_loop (map snd (PRISONER_MAPPING cd sd)) (schema self)\<rparr>)) \<and>
   (table self = Some t \<and> rows t = r # rs \<and> columns t \<noteq> [] \<and> length r = length (columns t) \<and>
    c \<in> fst ` set (mapping self) \<and> c \<notin> set (columns t) \<longrightarrow>
      (\<exists>c'. process_rows cpn cd sd self = Inl (KeyError c', self) \<and>
            c' \<in> fst ` set (mapping self) \<and> c' \<notin> set (columns t)))"
proof (intro conjI impI)
  assume "table self = Some t \<and> rows t = []"
  then show "process_rows cpn cd sd self =
        Inr (self\<lparr>schema := schema_loop (map snd (PRISONER_MAPPING cd sd)) (schema self)\<rparr>)"
    by (simp add: process_rows_def)
next
  assume a: "table self = Some t \<and> rows t = r # rs \<and> columns t \<noteq> [] \<and>
    length r = length (columns t) \<and> c \<in> fst ` set (mapping self) \<and> c \<notin> set (columns t)"
  let ?row = "zip (columns t) r"
  from a have keys: "fst ` set ?row = set (columns t)" by (simp add: zip_keys)
  from a obtain c0 v0 rest where row: "?row = (c0, v0) # rest"
    by (cases "columns t"; cases r) auto
  from a keys have "c \<notin> fst ` set ?row" by simp
  with a obtain c' where mc: "map_columns (instance_class self) (prisoner_uri 0) ?row (mapping self)
      (name_triples (prisoner_uri 0) (cpn v0)) = Inl (KeyError c')"
    and c': "c' \<in> fst ` set (mapping self)" "c' \<notin> fst ` set ?row"
    using map_columns_missing [of c "mapping self" ?row] by blast
  have "map_row_to_rdf cpn self (prisoner_uri 0) ?row = Inl (KeyError c')"
    using mc by (simp add: map_row_to_rdf_def row)
  with a have "process_rows cpn cd sd self = Inl (KeyError c', self)"
    by (simp add: process_rows_def)
  with c' keys show "\<exists>c'. process_rows cpn cd sd self = Inl (KeyError c', self) \<and>
            c' \<in> fst ` set (mapping self) \<and> c' \<notin> set (columns t)"
    by auto
qed

theorem missing_column_KeyError_witness:
  "process_rows (\<lambda>c. (PyNone, PyStr (py_str c), PyStr (py_str c))) PyStr PyStr
     (new_mapper [(''ammatti'', entry (BIOC @ ''has_occupation'') None (Some ''/'')
                     (Some ''Ammatti'') (Some ''Occupation''))]
        (SCHEMA_NS @ ''PrisonerOfWar'') \<lparr>columns = [''nimi''], rows = [[CellStr ''Virtanen'']]\<rparr>)
   = Inl (KeyError ''ammatti'',
          new_mapper [(''ammatti'', entry (BIOC @ ''has_occupation'') None (Some ''/'')
                     (Some ''Ammatti'') (Some ''Occupation''))]
        (SCHEMA_NS @ ''PrisonerOfWar'') \<lparr>columns = [''nimi''], rows = [[CellStr ''Virtanen'']]\<rparr>) \<and>
   process_rows (\<lambda>c. (PyNone, PyStr (py_str c), PyStr (py_str c))) PyStr PyStr
     (new_mapper [] (SCHEMA_NS @ ''PrisonerOfWar'') \<lparr>columns = [''nimi''], rows = []\<rparr>)
   = Inr ((new_mapper [] (SCHEMA_NS @ ''PrisonerOfWar'') \<lparr>columns = [''nimi''], rows = []\<rparr>)
          \<lparr>schema := schema_loop (map snd (PRISONER_MAPPING PyStr PyStr)) {}\<rparr>)"
proof -
  let ?cpn = "\<lambda>c. (PyNone, PyStr (py_str c), PyStr (py_str c))"
  let ?mp = "[(''ammatti'', entry (BIOC @ ''has_occupation'') None (Some ''/'')
                     (Some ''Ammatti'') (Some ''Occupation''))]"
  let ?t = "\<lparr>columns = [''nimi''], rows = [[CellStr ''Virtanen'']]\<rparr>"
  let ?self = "new_mapper ?mp (SCHEMA_NS @ ''PrisonerOfWar'') ?t"
  let ?empty = "\<lparr>columns = [''nimi''], rows = []\<rparr>"
  let ?fresh = "new_mapper [] (SCHEMA_NS @ ''PrisonerOfWar'') ?empty"
  have h: "table ?self = Some ?t \<and> rows ?t = [CellStr ''Virtanen''] # [] \<and> columns ?t \<noteq> [] \<and>
      length [CellStr ''Virtanen''] = length (columns ?t) \<and>
      ''ammatti'' \<in> fst ` set (mapping ?self) \<and> ''ammatti'' \<notin> set (columns ?t)"
    by (simp add: new_mapper_def)
  from mp [OF conjunct2 [OF missing_column_KeyError
        [where self = ?self and t = ?t and r = "[CellStr ''Virtanen'']" and rs = "[]"
          and c = "''ammatti''" and cpn = ?cpn and cd = PyStr and sd = PyStr]] h]
  obtain c' where 1: "process_rows ?cpn PyStr PyStr ?self = Inl (KeyError c', ?self)"
    and 2: "c' \<in> fst ` set (mapping ?self)"
    by blast
  from 2 have "c' = ''ammatti''" by (simp add: new_mapper_def)
  with 1 have A: "process_rows ?cpn PyStr PyStr ?self = Inl (KeyError ''ammatti'', ?self)"
    by simp
  have h0: "table ?fresh = Some ?empty \<and> rows ?empty = []"
    by (simp add: new_mapper_def)
  from mp [OF conjunct1 [OF missing_column_KeyError
        [where self = ?fresh and t = ?empty and cpn = ?cpn and cd = PyStr and sd = PyStr]] h0]
  have B: "process_rows ?cpn PyStr PyStr ?fresh =
      Inr (?fresh\<lparr>schema := schema_loop (map snd (PRISONER_MAPPING PyStr PyStr)) {}\<rparr>)"
    by (simp add: new_mapper_def)
  from A B show ?thesis by (rule conjI)
qed

text \<open>
  A table without rows and without the mapped column \<open>ammatti\<close>: the run raises nothing.
\<close>

theorem missing_column_KeyError_counterexample:
  "''ammatti'' \<notin> set (columns \<lparr>columns = [''nimi''], rows = []\<rparr>) \<and>
   process_rows (\<lambda>c. (PyNone, PyStr (py_str c), PyStr (py_str c))) PyStr PyStr
     (new_mapper [(''ammatti'', entry (BIOC @ ''has_occupation'') None (Some ''/'')
                     (Some ''Ammatti'') (Some ''Occupation''))]
        (SCHEMA_NS @ ''PrisonerOfWar'') \<lparr>columns = [''nimi''], rows = []\<rparr>)
   = Inr ((new_mapper [(''ammatti'', entry (BIOC @ ''has_occupation'') None (Some ''/'')
                     (Some ''Ammatti'') (Some ''Occupation''))]
        (SCHEMA_NS @ ''PrisonerOfWar'') \<lparr>columns = [''nimi''], rows = []\<rparr>)
          \<lparr>schema := schema_loop (map snd (PRISONER_MAPPING PyStr PyStr)) {}\<rparr>)"
  by (simp add: process_rows_def new_mapper_def)

section \<open>Name statements\<close>

lemma name_predicates_distinct:
  "FOAF_givenName \<noteq> FOAF_familyName" "FOAF_givenName \<noteq> SKOS_prefLabel"
  "FOAF_familyName \<noteq> SKOS_prefLabel" "RDF_type \<noteq> FOAF_givenName"
  "RDF_type \<noteq> FOAF_familyName" "RDF_type \<noteq> SKOS_prefLabel"
  by (simp_all add: FOAF_givenName_def FOAF_familyName_def SKOS_prefLabel_def RDF_type_def
      FOAF_def SKOS_def RDF_NS_def)

lemma emitted_predicate: "t \<in> emitted e m v \<Longrightarrow> fst (snd t) = uri m"
  by (auto simp: emitted_def split: if_splits)

lemma column_triples_predicate: "t \<in> column_triples e row cm \<Longrightarrow> fst (snd t) = uri (snd cm)"
  by (auto simp: column_triples_def split: option.splits dest: emitted_predicate)

lemma PRISONER_MAPPING_predicates:
  "\<forall>cm\<in>set (PRISONER_MAPPING cd sd). uri (snd cm) \<notin> name_predicates"
  by (simp add: PRISONER_MAPPING_def entry_def name_predicates_def FOAF_givenName_def
      FOAF_familyName_def SKOS_prefLabel_def FOAF_def SKOS_def SCHEMA_NS_def BIOC_def)

lemma name_statements:
  assumes free: "\<forall>cm\<in>set (mapping self). uri (snd cm) \<notin> name_predicates"
      and run: "map_row_to_rdf cpn self e row = Inr G"
  shows "\<exists>c0 v0 rest. row = (c0, v0) # rest \<and>
           {t \<in> G. fst (snd t) \<in> name_predicates} = name_triples e (cpn v0)"
proof -
  from map_row_eq [OF run] obtain c0 v0 rest where row: "row = (c0, v0) # rest"
    and G: "G = name_triples e (cpn v0) \<union>
         (if mapping self = [] then {} else {(e, RDF_type, URIRef (instance_class self))}) \<union>
         (\<Union>cm\<in>set (mapping self). column_triples e row cm)" by blast
  have 1: "fst (snd t) \<in> name_predicates" if "t \<in> name_triples e (cpn v0)" for t
    using that by (cases "cpn v0") (auto simp: name_triples_def add_def name_predicates_def split: if_splits)
  have 2: "fst (snd t) \<notin> name_predicates" if "cm \<in> set (mapping self)" "t \<in> column_triples e row cm" for t cm
    using that free column_triples_predicate by metis
  have 3: "RDF_type \<notin> name_predicates"
    using name_predicates_distinct by (simp add: name_predicates_def)
  have "{t \<in> G. fst (snd t) \<in> name_predicates} = name_triples e (cpn v0)"
    unfolding G using 1 2 3 by (auto split: if_splits)
  with row show ?thesis by blast
qed

text \<open>
  C3. With \<open>PRISONER_MAPPING\<close> as the mapping, the statement set of a row, whose first
  cell the name converter decomposes into given names, family name and full name, has exactly one
  family-name statement, exactly one preferred-label statement, and one given-name
  statement when the given names are not empty and none otherwise: three name
  statements or two.
\<close>

theorem name_statement_count:
  assumes "mapping self = PRISONER_MAPPING cd sd"
      and "map_row_to_rdf cpn self e ((c0, v0) # rest) = Inr G"
      and "cpn v0 = (firstnames, lastname, fullname)"
  shows "{t \<in> G. fst (snd t) = FOAF_familyName} = {(e, FOAF_familyName, Literal lastname)} \<and>
         {t \<in> G. fst (snd t) = SKOS_prefLabel} = {(e, SKOS_prefLabel, Literal fullname)} \<and>
         {t \<in> G. fst (snd t) = FOAF_givenName} =
           (if truthy firstnames then {(e, FOAF_givenName, Literal firstnames)} else {}) \<and>
         card {t \<in> G. fst (snd t) \<in> name_predicates} = (if truthy firstnames then 3 else 2)"
proof -
  have free: "\<forall>cm\<in>set (mapping self). uri (snd cm) \<notin> name_predicates"
    using assms(1) PRISONER_MAPPING_predicates by simp
  from name_statements [OF free assms(2)]
  have N: "{t \<in> G. fst (snd t) \<in> name_predicates} = name_triples e (cpn v0)"
    by simp
  note names = assms(3)
  note d = name_predicates_distinct
  have sub: "{t \<in> G. fst (snd t) = p} = {t \<in> name_triples e (cpn v0). fst (snd t) = p}"
    if "p \<in> name_predicates" for p
    using that N by auto
  have fam: "{t \<in> G. fst (snd t) = FOAF_familyName} = {(e, FOAF_familyName, Literal lastname)}"
    unfolding sub [of FOAF_familyName, simplified name_predicates_def, simplified]
    using d by (auto simp: names name_triples_def add_def)
  have lab: "{t \<in> G. fst (snd t) = SKOS_prefLabel} = {(e, SKOS_prefLabel, Literal fullname)}"
    unfolding sub [of SKOS_prefLabel, simplified name_predicates_def, simplified]
    using d by (auto simp: names name_triples_def add_def)
  have giv: "{t \<in> G. fst (snd t) = FOAF_givenName} =
             (if truthy firstnames then {(e, FOAF_givenName, Literal firstnames)} else {})"
    unfolding sub [of FOAF_givenName, simplified name_predicates_def, simplified]
    using d by (auto simp: names name_triples_def add_def)
  have "card (name_triples e (cpn v0)) = (if truthy firstnames then 3 else 2)"
    using d by (simp add: names name_triples_def add_def)
  with N have cnt: "card {t \<in> G. fst (snd t) \<in> name_predicates} = (if truthy firstnames then 3 else 2)"
    by simp
  from fam lab giv cnt show ?thesis by blast
qed

text \<open>A row whose mapped cells are all empty contributes the type statement only.\<close>

lemma map_columns_blank:
  assumes "\<forall>cm\<in>set mp. map_of row (fst cm) = Some (CellStr []) \<and> \<not> slash_separated (snd cm) \<and>
             \<not> truthy (convert_value (snd cm) [])"
  shows "map_columns cls e row mp g =
           Inr (if mp = [] then g else insert (e, RDF_type, URIRef cls) g)"
  using assms
proof (induction mp arbitrary: g)
  case Nil
  then show ?case by simp
next
  case (Cons cm mp)
  obtain c m where cm: "cm = (c, m)" by (cases cm)
  from Cons.prems cm have 1: "map_of row c = Some (CellStr [])" "\<not> slash_separated m"
    "\<not> truthy (convert_value m [])"
    by auto
  have 2: "map_values e m (field_values m (CellStr [])) g' = g'" for g'
    using 1 by (simp add: field_values_def strip_def extract_value_def)
  have 3: "map_columns cls e row mp (add (e, RDF_type, URIRef cls) g) =
      Inr (insert (e, RDF_type, URIRef cls) g)"
    using Cons.prems by (subst Cons.IH) (auto simp: add_def)
  show ?case
    by (simp add: cm 1 2 3)
qed

lemma map_of_blank:
  "k \<in> fst ` set xs \<Longrightarrow> k \<noteq> k0 \<Longrightarrow>
     map_of ((k0, v0) # map (\<lambda>cm. (fst cm, c)) xs) k = Some c"
  by (induction xs) auto

lemma example_names_row:
  "map_row_to_rdf (\<lambda>c. (PyStr ''Matti'', PyStr ''Virtanen'', PyStr ''Matti Virtanen''))
     (new_mapper (PRISONER_MAPPING PyStr PyStr) (SCHEMA_NS @ ''PrisonerOfWar'')
        \<lparr>columns = [], rows = []\<rparr>)
     (prisoner_uri 0)
     ((''nimi'', CellStr ''Virtanen Matti'') #
      map (\<lambda>cm. (fst cm, CellStr [])) (PRISONER_MAPPING PyStr PyStr))
   = Inr {(prisoner_uri 0, RDF_type, URIRef (SCHEMA_NS @ ''PrisonerOfWar'')),
          (prisoner_uri 0, SKOS_prefLabel, Lit (PyStr ''Matti Virtanen'') None None),
          (prisoner_uri 0, FOAF_familyName, Lit (PyStr ''Virtanen'') None None),
          (prisoner_uri 0, FOAF_givenName, Lit (PyStr ''Matti'') None None)}"
proof -
  let ?row = "(''nimi'', CellStr ''Virtanen Matti'') #
      map (\<lambda>cm. (fst cm, CellStr [])) (PRISONER_MAPPING PyStr PyStr)"
  have keys: "\<forall>cm\<in>set (PRISONER_MAPPING PyStr PyStr). fst cm \<noteq> ''nimi''"
    by (simp add: PRISONER_MAPPING_def)
  have blank: "\<forall>cm\<in>set (PRISONER_MAPPING PyStr PyStr).
      \<not> slash_separated (snd cm) \<and> \<not> truthy (convert_value (snd cm) [])"
    by (simp add: PRISONER_MAPPING_def entry_def convert_value_def)
  have "\<forall>cm\<in>set (PRISONER_MAPPING PyStr PyStr).
      map_of ?row (fst cm) = Some (CellStr []) \<and> \<not> slash_separated (snd cm) \<and>
      \<not> truthy (convert_value (snd cm) [])"
  proof (intro ballI conjI)
    fix cm assume cm: "cm \<in> set (PRISONER_MAPPING PyStr PyStr)"
    then have "fst cm \<in> fst ` set (PRISONER_MAPPING PyStr PyStr)"
      by (rule imageI)
    moreover from keys cm have "fst cm \<noteq> ''nimi''" ..
    ultimately show "map_of ?row (fst cm) = Some (CellStr [])"
      by (rule map_of_blank)
    from blank cm show "\<not> slash_separated (snd cm)" "\<not> truthy (convert_value (snd cm) [])"
      by blast+
  qed
  note mc = map_columns_blank [OF this]
  have ne: "PRISONER_MAPPING PyStr PyStr \<noteq> []"
    by (simp add: PRISONER_MAPPING_def)
  show ?thesis
    by (simp add: map_row_to_rdf_def new_mapper_def mc ne name_triples_def add_def
        insert_commute)
qed

theorem name_statement_count_witness:
  "{t \<in> {(prisoner_uri 0, RDF_type, URIRef (SCHEMA_NS @ ''PrisonerOfWar'')),
          (prisoner_uri 0, SKOS_prefLabel, Lit (PyStr ''Matti Virtanen'') None None),
          (prisoner_uri 0, FOAF_familyName, Lit (PyStr ''Virtanen'') None None),
          (prisoner_uri 0, FOAF_givenName, Lit (PyStr ''Matti'') None None)}.
      fst (snd t) = FOAF_familyName} =
     {(prisoner_uri 0, FOAF_familyName, Lit (PyStr ''Virtanen'') None None)} \<and>
   {t \<in> {(prisoner_uri 0, RDF_type, URIRef (SCHEMA_NS @ ''PrisonerOfWar'')),
          (prisoner_uri 0, SKOS_prefLabel, Lit (PyStr ''Matti Virtanen'') None None),
          (prisoner_uri 0, FOAF_familyName, Lit (PyStr ''Virtanen'') None None),
          (prisoner_uri 0, FOAF_givenName, Lit (PyStr ''Matti'') None None)}.
      fst (snd t) = SKOS_prefLabel} =
     {(prisoner_uri 0, SKOS_prefLabel, Lit (PyStr ''Matti Virtanen'') None None)} \<and>
   {t \<in> {(prisoner_uri 0, RDF_type, URIRef (SCHEMA_NS @ ''PrisonerOfWar'')),
          (prisoner_uri 0, SKOS_prefLabel, Lit (PyStr ''Matti Virtanen'') None None),
          (prisoner_uri 0, FOAF_familyName, Lit (PyStr ''Virtanen'') None None),
          (prisoner_uri 0, FOAF_givenName, Lit (PyStr ''Matti'') None None)}.
      fst (snd t) = FOAF_givenName} =
     {(prisoner_uri 0, FOAF_givenName, Lit (PyStr ''Matti'') None None)} \<and>
   card {t \<in> {(prisoner_uri 0, RDF_type, URIRef (SCHEMA_NS @ ''PrisonerOfWar'')),
          (prisoner_uri 0, SKOS_prefLabel, Lit (PyStr ''Matti Virtanen'') None None),
          (prisoner_uri 0, FOAF_familyName, Lit (PyStr ''Virtanen'') None None),
          (prisoner_uri 0, FOAF_givenName, Lit (PyStr ''Matti'') None None)}.
      fst (snd t) \<in> name_predicates} = 3"
proof -
  have mp: "mapping (new_mapper (PRISONER_MAPPING PyStr PyStr) (SCHEMA_NS @ ''PrisonerOfWar'')
        \<lparr>columns = [], rows = []\<rparr>) = PRISONER_MAPPING PyStr PyStr"
    by (simp add: new_mapper_def)
  note c = name_statement_count [OF mp example_names_row refl]
  have l: "Literal (PyStr ''Matti'') = Lit (PyStr ''Matti'') None None"
    "Literal (PyStr ''Virtanen'') = Lit (PyStr ''Virtanen'') None None"
    "Literal (PyStr ''Matti Virtanen'') = Lit (PyStr ''Matti Virtanen'') None None"
    "truthy (PyStr ''Matti'') = True"
    by simp_all
  from c show ?thesis
    unfolding l if_True .
qed

section \<open>Splitting and trimming\<close>

lemma re_split_acc_none: "\<not> contains_sep s \<Longrightarrow> re_split_acc acc s = [rev acc @ s]"
proof (induction s arbitrary: acc)
  case Nil
  then show ?case by simp
next
  case (Cons a s)
  show ?case
  proof (cases s)
    case Nil
    then show ?thesis by simp
  next
    case s1: (Cons b s')
    show ?thesis
    proof (cases s')
      case Nil
      with s1 show ?thesis by simp
    next
      case (Cons c r)
      with s1 Cons.prems have "\<not> slash_sep a b c" "\<not> contains_sep s" by auto
      with Cons.IH [of "a # acc"] s1 Cons show ?thesis by simp
    qed
  qed
qed

lemma slash_not_space: "\<not> is_space (CHR ''/'')"
  by (simp add: is_space_def)

lemma re_split_acc_first:
  "\<not> contains_sep (p @ [a]) \<Longrightarrow> slash_sep a b c \<Longrightarrow>
     re_split_acc acc (p @ a # b # c # rest) = (rev acc @ p) # re_split_acc [] rest"
proof (induction p arbitrary: acc)
  case Nil
  then show ?case by simp
next
  case (Cons x p)
  from Cons.prems have rest: "\<not> contains_sep (p @ [a])" by simp
  have "\<not> slash_sep x y z" if "p @ a # b # c # rest = y # z # r" for y z r
  proof (cases p)
    case Nil
    with that have "y = a" by simp
    moreover from Cons.prems(2) have "is_space a" by (simp add: slash_sep_def)
    ultimately show ?thesis using slash_not_space by (auto simp: slash_sep_def)
  next
    case p1: (Cons y' p')
    show ?thesis
    proof (cases p')
      case Nil
      with p1 that have "p @ [a] = y # z # []" by simp
      with Cons.prems(1) show ?thesis by simp
    next
      case (Cons z' p'')
      with p1 that have "p @ [a] = y # z # (p'' @ [a])" by simp
      with Cons.prems(1) show ?thesis by simp
    qed
  qed
  moreover obtain y z r where yz: "p @ a # b # c # rest = y # z # r"
    by (cases p; cases "tl p") auto
  ultimately have "re_split_acc acc (x # p @ a # b # c # rest) =
      re_split_acc (x # acc) (p @ a # b # c # rest)"
    by simp
  with Cons.IH [OF rest Cons.prems(2), of "x # acc"] show ?case by simp
qed

lemma no_slash_no_sep: "CHR ''/'' \<notin> set s \<Longrightarrow> \<not> contains_sep s"
  by (induction s) (auto simp: slash_sep_def split: list.splits)

text \<open>What \<^const>\<open>contains_sep\<close> says, without recursion.\<close>

lemma contains_sepI: "slash_sep a b c \<Longrightarrow> contains_sep (u @ a # b # c # w)"
  by (induction u) simp_all

lemma contains_sepD:
  "contains_sep s \<Longrightarrow> \<exists>u a b c w. s = u @ a # b # c # w \<and> slash_sep a b c"
proof (induction s)
  case Nil
  then show ?case by simp
next
  case (Cons x s)
  show ?case
  proof (cases "contains_sep s")
    case True
    with Cons.IH obtain u a b c w where s: "s = u @ a # b # c # w" and sp: "slash_sep a b c"
      by meson
    from s have "x # s = (x # u) @ a # b # c # w" by simp
    with sp show ?thesis by meson
  next
    case False
    with Cons.prems obtain b c r where s: "s = b # c # r" and sp: "slash_sep x b c"
      by (cases s; cases "tl s") auto
    from s have "x # s = [] @ x # b # c # r" by simp
    with sp show ?thesis by meson
  qed
qed

lemma contains_sep_iff:
  "contains_sep s \<longleftrightarrow> (\<exists>u a b c w. s = u @ a # b # c # w \<and> slash_sep a b c)"
  using contains_sepD contains_sepI by meson

lemma strip_trimmed:
  "strip s = [] \<or> (\<not> is_space (hd (strip s)) \<and> \<not> is_space (last (strip s)))"
proof (cases "strip s = []")
  case True
  then show ?thesis ..
next
  case False
  let ?y = "dropWhile is_space s"
  let ?z = "dropWhile is_space (rev ?y)"
  have s: "strip s = rev ?z" by (simp add: strip_def)
  with False have z: "?z \<noteq> []" by simp
  then have 1: "\<not> is_space (hd ?z)" by (rule hd_dropWhile)
  have y: "?y \<noteq> []"
  proof
    assume e: "?y = []"
    have "?z = []" unfolding e by simp
    with z show False ..
  qed
  then have 2: "\<not> is_space (hd ?y)" by (rule hd_dropWhile)
  obtain u where "rev ?y = u @ ?z"
    by (metis takeWhile_dropWhile_id)
  with z have "last ?z = last (rev ?y)" by (metis last_appendR)
  also have "\<dots> = hd ?y" using y by (simp add: last_rev)
  finally have 3: "hd (rev ?z) = hd ?y" using z by (simp add: hd_rev)
  have 4: "last (rev ?z) = hd ?z" using z by (simp add: last_rev)
  from 1 2 3 4 show ?thesis unfolding s by simp
qed

lemma dropWhile_id: "s = [] \<or> \<not> P (hd s) \<Longrightarrow> dropWhile P s = s"
  by (cases s) auto

lemma strip_idem: "strip (strip s) = strip s"
proof (cases "strip s = []")
  case True
  have "strip [] = []" by (simp add: strip_def)
  with True show ?thesis by simp
next
  case False
  let ?t = "strip s"
  from False strip_trimmed [of s] have h: "\<not> is_space (hd ?t)" and l: "\<not> is_space (last ?t)"
    by auto
  have 1: "dropWhile is_space ?t = ?t" using h by (simp add: dropWhile_id)
  have "hd (rev ?t) = last ?t" using False by (simp add: hd_rev)
  then have 2: "dropWhile is_space (rev ?t) = rev ?t" using l by (simp add: dropWhile_id)
  show ?thesis
    by (subst (1) strip_def) (simp add: 1 2)
qed

lemma field_values_trimmed: "x \<in> set (field_values m v) \<Longrightarrow> strip x = x"
  by (auto simp: field_values_def strip_idem split: if_splits)

text \<open>
  C1, as amended. For a descriptor with the flag \<open>slash_separated\<close> the text of the cell
  is split at the matches of \<open>\s/\s\<close> (a whitespace character, a slash, a whitespace
  character), taken leftmost first and without overlap, and each piece is trimmed: a text
  without a match gives one piece, and a text whose first match begins right after \<open>p\<close>
  gives the trimmed \<open>p\<close> followed by the pieces of what follows the match. For every
  descriptor, a text without a slash gives one piece, and every piece is trimmed.
\<close>

theorem field_values_split:
  "(slash_separated m \<and> \<not> contains_sep (py_str v) \<longrightarrow> field_values m v = [strip (py_str v)]) \<and>
   (slash_separated m \<and> py_str v = p @ a # b # c # rest \<and> \<not> contains_sep (p @ [a]) \<and>
    slash_sep a b c \<longrightarrow>
      field_values m v = strip p # field_values m (CellStr rest)) \<and>
   (CHR ''/'' \<notin> set (py_str v) \<longrightarrow> field_values m v = [strip (py_str v)]) \<and>
   (\<forall>x\<in>set (field_values m v). strip x = x)"
proof (intro conjI impI ballI)
  assume "slash_separated m \<and> \<not> contains_sep (py_str v)"
  then show "field_values m v = [strip (py_str v)]"
    by (simp add: field_values_def re_split_slash_def re_split_acc_none)
next
  assume a: "slash_separated m \<and> py_str v = p @ a # b # c # rest \<and> \<not> contains_sep (p @ [a]) \<and>
    slash_sep a b c"
  then have "re_split_slash (py_str v) = p # re_split_slash rest"
    using re_split_acc_first [of p a b c "[]" rest] by (simp add: re_split_slash_def)
  with a show "field_values m v = strip p # field_values m (CellStr rest)"
    by (simp add: field_values_def)
next
  assume "CHR ''/'' \<notin> set (py_str v)"
  then have "\<not> contains_sep (py_str v)"
    by (rule no_slash_no_sep)
  then show "field_values m v = [strip (py_str v)]"
    by (simp add: field_values_def re_split_slash_def re_split_acc_none)
next
  fix x assume "x \<in> set (field_values m v)"
  then show "strip x = x"
    by (rule field_values_trimmed)
qed

theorem field_values_split_witness:
  "field_values
     ((entry (SCHEMA_NS @ ''home_place'') None (Some ''/'') (Some ''Kotikunta'')
         (Some ''Home municipality''))\<lparr>slash_separated := True\<rparr>)
     (CellStr ''a / b / c'') = [''a'', ''b'', ''c''] \<and>
   field_values
     ((entry (SCHEMA_NS @ ''home_place'') None (Some ''/'') (Some ''Kotikunta'')
         (Some ''Home municipality''))\<lparr>slash_separated := True\<rparr>)
     (CellStr ''Helsinki'') = [''Helsinki''] \<and>
   strip ''a'' = ''a''"
proof -
  let ?m = "(entry (SCHEMA_NS @ ''home_place'') None (Some ''/'') (Some ''Kotikunta'')
         (Some ''Home municipality''))\<lparr>slash_separated := True\<rparr>"
  have f: "slash_separated ?m" by (simp add: entry_def)
  have sp: "slash_sep (CHR '' '') (CHR ''/'') (CHR '' '')"
    by (simp add: slash_sep_def is_space_def)
  have st: "strip ''a'' = ''a''" "strip ''b'' = ''b''" "strip ''c'' = ''c''"
    "strip ''Helsinki'' = ''Helsinki''"
    by (simp_all add: strip_def is_space_def)
  have 1: "field_values ?m (CellStr ''a / b / c'') = strip ''a'' # field_values ?m (CellStr ''b / c'')"
    using field_values_split [where m = ?m and v = "CellStr ''a / b / c''" and p = "''a''"
        and a = "CHR '' ''" and b = "CHR ''/''" and c = "CHR '' ''" and rest = "''b / c''"] f sp
    by (simp add: slash_sep_def)
  have 2: "field_values ?m (CellStr ''b / c'') = strip ''b'' # field_values ?m (CellStr ''c'')"
    using field_values_split [where m = ?m and v = "CellStr ''b / c''" and p = "''b''"
        and a = "CHR '' ''" and b = "CHR ''/''" and c = "CHR '' ''" and rest = "''c''"] f sp
    by (simp add: slash_sep_def)
  have 3: "field_values ?m (CellStr ''c'') = [strip ''c'']"
    using field_values_split [where m = ?m and v = "CellStr ''c''"] by simp
  have 4: "field_values ?m (CellStr ''Helsinki'') = [strip ''Helsinki'']"
    using field_values_split [where m = ?m and v = "CellStr ''Helsinki''"] by simp
  have 5: "strip ''a'' = ''a''"
    using field_values_split [where m = ?m and v = "CellStr ''a''"] 
    by (simp add: st)
  from 1 2 3 4 5 show ?thesis by (simp only: st)
qed

text \<open>
  The separator that a descriptor declares is not what the text is split on: the text
  \<open>Helsinki;Turku\<close> under the descriptor of \<open>hautauspaikka\<close>, which declares \<open>;\<close>, stays
  one piece, with the flag or without it, and \<open>a/b\<close> under a descriptor that declares \<open>/\<close>
  and has the flag stays one piece as well.
\<close>

theorem field_values_split_counterexample:
  "value_separator (entry (SCHEMA_NS @ ''burial_place'') None (Some '';'')
       (Some ''Hautauspaikka'') (Some ''Place of burial'')) = Some '';'' \<and>
   field_values (entry (SCHEMA_NS @ ''burial_place'') None (Some '';'')
       (Some ''Hautauspaikka'') (Some ''Place of burial''))
     (CellStr ''Helsinki;Turku'') = [''Helsinki;Turku''] \<and>
   field_values ((entry (SCHEMA_NS @ ''burial_place'') None (Some '';'')
       (Some ''Hautauspaikka'') (Some ''Place of burial''))\<lparr>slash_separated := True\<rparr>)
     (CellStr ''Helsinki;Turku'') = [''Helsinki;Turku''] \<and>
   value_separator ((entry (SCHEMA_NS @ ''home_place'') None (Some ''/'') (Some ''Kotikunta'')
         (Some ''Home municipality''))\<lparr>slash_separated := True\<rparr>) = Some ''/'' \<and>
   field_values ((entry (SCHEMA_NS @ ''home_place'') None (Some ''/'') (Some ''Kotikunta'')
         (Some ''Home municipality''))\<lparr>slash_separated := True\<rparr>)
     (CellStr ''a/b'') = [''a/b'']"
  by (simp add: entry_def field_values_def re_split_slash_def strip_def is_space_def slash_sep_def)

section \<open>Values that reach the graph\<close>





end
